theory Spec2Isabelle
  imports Main "HOL-Library.Word"
begin

section \<open>Host filesystem access (filesystem.cpp)\<close>

subsection \<open>Timestamps\<close>

text \<open>
  \<^verbatim>\<open>m_time_t\<close> is the SDK's signed 64-bit time type and \<^verbatim>\<open>(uint32_t)-1\<close> is
  \<open>2^32 - 1\<close>. In \<^verbatim>\<open>*t > (uint32_t)-1\<close> the unsigned 32-bit operand is converted to the
  signed 64-bit type, so both comparisons of the source are signed.
\<close>

type_synonym m_time_t = "64 word"
type_synonym m_off_t = "64 word"
type_synonym handle = "64 word"

definition captimestamp :: "m_time_t \<Rightarrow> m_time_t" where
  "captimestamp t =
     (if sint t > 4294967295 then 4294967295
      else if sint t < 0 then 0
      else t)"

subsection \<open>Filesystem families and their restricted character sets\<close>

datatype FileSystemType =
  FS_DEFAULT | FS_APFS | FS_HFS | FS_EXT | FS_FAT32 | FS_EXFAT | FS_NTFS

text \<open>
  \<^verbatim>\<open>strchr(s, c)\<close> returns a non-null pointer when \<open>c\<close> occurs in \<open>s\<close>, and also when
  \<open>c\<close> is the NUL byte: the terminating NUL counts as part of the string.
\<close>

definition strchr :: "string \<Rightarrow> char \<Rightarrow> bool" where
  "strchr s c = (c \<in> set s \<or> c = CHR 0x00)"

text \<open>The literal \<^verbatim>\<open>"\\/:?\"<>|*+,.;=[]"\<close> of the FAT32 case, byte by byte.\<close>

definition fat32_restricted :: string where
  "fat32_restricted =
     [CHR 0x5C, CHR 0x2F, CHR 0x3A, CHR 0x3F, CHR 0x22, CHR 0x3C, CHR 0x3E, CHR 0x7C,
      CHR 0x2A, CHR 0x2B, CHR 0x2C, CHR 0x2E, CHR 0x3B, CHR 0x3D, CHR 0x5B, CHR 0x5D]"

text \<open>The literal \<^verbatim>\<open>"\\/:?\"<>|*"\<close> of the exFAT, NTFS and default case.\<close>

definition ntfs_restricted :: string where
  "ntfs_restricted =
     [CHR 0x5C, CHR 0x2F, CHR 0x3A, CHR 0x3F, CHR 0x22, CHR 0x3C, CHR 0x3E, CHR 0x7C,
      CHR 0x2A]"

fun islocalfscompatible :: "char \<Rightarrow> FileSystemType \<Rightarrow> bool" where
  "islocalfscompatible c FS_APFS = (c \<noteq> CHR 0x3A)"
| "islocalfscompatible c FS_HFS = (c \<noteq> CHR 0x3A)"
| "islocalfscompatible c FS_EXT = (c \<noteq> CHR 0x00 \<and> c \<noteq> CHR 0x2F)"
| "islocalfscompatible c FS_FAT32 = (\<not> strchr fat32_restricted c)"
| "islocalfscompatible c FS_EXFAT = (\<not> strchr ntfs_restricted c)"
| "islocalfscompatible c FS_NTFS = (\<not> strchr ntfs_restricted c)"
| "islocalfscompatible c FS_DEFAULT = (\<not> strchr ntfs_restricted c)"

subsection \<open>Detecting the family of a destination path\<close>

text \<open>
  The platform enters through two values: the path separator that
  \<^verbatim>\<open>getPathSeparator\<close> returns, and the classification of a path by the platform's
  \<^verbatim>\<open>statfs\<close> or \<^verbatim>\<open>GetVolumeInformationA\<close> branch of \<^verbatim>\<open>getlocalfstype\<close>
  (\<open>None\<close> when the call fails or no branch returns). A \<^verbatim>\<open>const string*\<close> that may be
  null is a \<open>string option\<close>.
\<close>

record platform =
  getPathSeparator :: string
  statfs_family :: "string \<Rightarrow> FileSystemType option"

definition getlocalfstype :: "platform \<Rightarrow> string option \<Rightarrow> FileSystemType" where
  "getlocalfstype pf dstPath =
     (case dstPath of
        None \<Rightarrow> FS_DEFAULT
      | Some p \<Rightarrow>
          if p = [] then FS_DEFAULT
          else (case statfs_family pf p of Some t \<Rightarrow> t | None \<Rightarrow> FS_DEFAULT))"

text \<open>\<^verbatim>\<open>string::rfind\<close> for a one-character separator: the last index holding it.\<close>

fun rfind :: "char \<Rightarrow> string \<Rightarrow> nat option" where
  "rfind c [] = None"
| "rfind c (x # xs) =
     (case rfind c xs of
        Some k \<Rightarrow> Some (Suc k)
      | None \<Rightarrow> if x = c then Some 0 else None)"

definition getValidPath :: "platform \<Rightarrow> string option \<Rightarrow> string" where
  "getValidPath pf path =
     (let validPath = (case path of Some p \<Rightarrow> p | None \<Rightarrow> []);
          separator = getPathSeparator pf
      in if separator \<noteq> ''/'' \<and> separator \<noteq> [CHR 0x5C] then validPath
         else if validPath \<noteq> [] then
           (case rfind (hd separator) validPath of
              Some pos \<Rightarrow>
                if pos \<noteq> length validPath - 1 then take (pos + 1) validPath else validPath
            | None \<Rightarrow> validPath)
         else validPath)"

subsection \<open>Escaping names for the local filesystem\<close>

text \<open>\<^verbatim>\<open>sprintf(buf, "%%%02x", c)\<close> for an unsigned char: a percent sign and two lower-case
  hexadecimal digits.\<close>

definition hexdigit :: "nat \<Rightarrow> char" where
  "hexdigit n = ''0123456789abcdef'' ! n"

definition sprintf_pct02x :: "char \<Rightarrow> string" where
  "sprintf_pct02x c =
     [CHR ''%'', hexdigit ((of_char c :: nat) div 16), hexdigit ((of_char c :: nat) mod 16)]"

text \<open>
  Modelled from the spec: \<^verbatim>\<open>Utils::utf8SequenceSize\<close> is defined outside the files at
  hand. The loop of \<^verbatim>\<open>escapefsincompatible\<close> takes it as the parameter \<open>sz\<close>; this
  instance, used to evaluate concrete names, gives the length of the UTF-8 sequence that
  a lead byte opens and treats every other byte as a single-byte character.
\<close>

definition utf8SequenceSize :: "char \<Rightarrow> nat" where
  "utf8SequenceSize c =
     (let aux = (of_char c :: nat)
      in if aux \<le> 127 then 1
         else if 192 \<le> aux \<and> aux < 224 then 2
         else if 224 \<le> aux \<and> aux < 240 then 3
         else if 240 \<le> aux \<and> aux < 248 then 4
         else 1)"

text \<open>What the escaping loop needs of the sequence size: it is never zero (the source asserts
  it), and the hexadecimal digits are single-byte characters.\<close>

definition seqsize_ok :: "(char \<Rightarrow> nat) \<Rightarrow> bool" where
  "seqsize_ok sz = ((\<forall>c. 0 < sz c) \<and> (\<forall>c \<in> set ''0123456789abcdef''. sz c = 1))"

lemma hexdigit_compatible: "k < 16 \<Longrightarrow> islocalfscompatible (hexdigit k) fs"
proof -
  assume "k < 16"
  then have "hexdigit k \<in> set ''0123456789abcdef''"
    unfolding hexdigit_def by (intro nth_mem) simp
  moreover have "\<forall>c \<in> set ''0123456789abcdef''. islocalfscompatible c fs"
    by (cases fs) (simp_all add: strchr_def fat32_restricted_def ntfs_restricted_def)
  ultimately show ?thesis by blast
qed

lemma incompatible_count_drop:
  "i < length name \<Longrightarrow>
   length (filter (\<lambda>c. \<not> islocalfscompatible c fs) (drop i name)) =
     (if islocalfscompatible (name ! i) fs then 0 else 1) +
     length (filter (\<lambda>c. \<not> islocalfscompatible c fs) (drop (Suc i) name))"
  by (simp add: Cons_nth_drop_Suc [symmetric])

lemma incompatible_count_mono:
  "length (filter P (drop (i + n) name)) \<le> length (filter P (drop i name))"
proof -
  have aux: "length (filter P (drop n xs)) \<le> length (filter P xs)" for xs :: "'a list"
  proof -
    have "length (filter P xs) = length (filter P (take n xs)) + length (filter P (drop n xs))"
      by (metis append_take_drop_id filter_append length_append)
    then show ?thesis by simp
  qed
  have "length (filter P (drop n (drop i name))) \<le> length (filter P (drop i name))"
    by (rule aux)
  then show ?thesis by (simp add: add.commute)
qed

text \<open>
  The loop of \<^verbatim>\<open>escapefsincompatible\<close>: \<open>name\<close> is rewritten in place and \<open>i\<close> advances
  by the sequence size, also over a sequence just written. \<open>None\<close> stands for the failed
  \<^verbatim>\<open>assert(utf8seqsize)\<close>: without the assertion the loop would not advance.
\<close>

function escape_loop ::
  "(char \<Rightarrow> nat) \<Rightarrow> FileSystemType \<Rightarrow> string \<Rightarrow> nat \<Rightarrow> string option" where
  "escape_loop sz fs name i =
     (if i < length name then
        (if sz (name ! i) = 0 then None
         else if sz (name ! i) = 1 \<and> \<not> islocalfscompatible (name ! i) fs then
           escape_loop sz fs (take i name @ sprintf_pct02x (name ! i) @ drop (Suc i) name)
             (i + sz (name ! i))
         else escape_loop sz fs name (i + sz (name ! i)))
      else Some name)"
  by pat_completeness auto
termination
proof (relation "measure (\<lambda>(sz, fs, name, i).
    3 * length (filter (\<lambda>c. \<not> islocalfscompatible c fs) (drop i name)) + (length name - i))")
  show "wf (measure (\<lambda>(sz, fs, name, i).
    3 * length (filter (\<lambda>c. \<not> islocalfscompatible c fs) (drop i name)) + (length name - i)))"
    by simp
next
  fix sz :: "char \<Rightarrow> nat" and fs name i
  assume lt: "i < length name" and one: "sz (name ! i) = 1 \<and> \<not> islocalfscompatible (name ! i) fs"
  let ?P = "\<lambda>c. \<not> islocalfscompatible c fs"
  let ?name' = "take i name @ sprintf_pct02x (name ! i) @ drop (Suc i) name"
  have d: "drop (i + 1) ?name' =
      [hexdigit ((of_char (name ! i) :: nat) div 16), hexdigit ((of_char (name ! i) :: nat) mod 16)]
        @ drop (Suc i) name"
    using lt by (simp add: sprintf_pct02x_def)
  have h1: "islocalfscompatible (hexdigit ((of_char (name ! i) :: nat) div 16)) fs"
    by (rule hexdigit_compatible) (simp add: less_mult_imp_div_less)
  have h2: "islocalfscompatible (hexdigit ((of_char (name ! i) :: nat) mod 16)) fs"
    by (rule hexdigit_compatible) simp
  have c': "length (filter ?P (drop (i + 1) ?name')) = length (filter ?P (drop (Suc i) name))"
    unfolding d using h1 h2 by simp
  have c: "length (filter ?P (drop i name)) = 1 + length (filter ?P (drop (Suc i) name))"
    using incompatible_count_drop [OF lt, of fs] one by simp
  have l: "length ?name' = length name + 2"
    using lt by (simp add: sprintf_pct02x_def)
  show "((sz, fs, ?name', i + sz (name ! i)), (sz, fs, name, i)) \<in> measure (\<lambda>(sz, fs, name, i).
    3 * length (filter (\<lambda>c. \<not> islocalfscompatible c fs) (drop i name)) + (length name - i))"
    using one c c' l lt by simp
next
  fix sz :: "char \<Rightarrow> nat" and fs name i
  assume lt: "i < length name" and nz: "sz (name ! i) \<noteq> 0"
  have "length (filter (\<lambda>c. \<not> islocalfscompatible c fs) (drop (i + sz (name ! i)) name))
      \<le> length (filter (\<lambda>c. \<not> islocalfscompatible c fs) (drop i name))"
    by (rule incompatible_count_mono)
  then show "((sz, fs, name, i + sz (name ! i)), (sz, fs, name, i)) \<in> measure (\<lambda>(sz, fs, name, i).
    3 * length (filter (\<lambda>c. \<not> islocalfscompatible c fs) (drop i name)) + (length name - i))"
    using lt nz by simp
qed

declare escape_loop.simps [simp del]

text \<open>\<^verbatim>\<open>FileSystemAccess::escapefsincompatible\<close>: the new value of \<open>*name\<close>.\<close>

definition escapefsincompatible ::
  "(char \<Rightarrow> nat) \<Rightarrow> platform \<Rightarrow> string \<Rightarrow> string option \<Rightarrow> string option" where
  "escapefsincompatible sz pf name dstPath =
     (let validPath = getValidPath pf dstPath
      in if name = ''..'' then Some ''%2e%2e''
         else if name = ''.'' then Some ''%2e''
         else escape_loop sz (getlocalfstype pf (Some validPath)) name 0)"

text \<open>
  The same loop as one pass from left to right, for the proofs about it: the index jumps
  over the \<open>sz c - 1\<close> bytes after a byte \<open>c\<close> without looking at them, and \<open>k\<close>
  counts the bytes of such a jump still to come.
\<close>

fun escape_pass :: "(char \<Rightarrow> nat) \<Rightarrow> FileSystemType \<Rightarrow> nat \<Rightarrow> string \<Rightarrow> string" where
  "escape_pass sz fs k [] = []"
| "escape_pass sz fs k (c # cs) =
     (if 0 < k then c # escape_pass sz fs (k - 1) cs
      else if sz c = 1 \<and> \<not> islocalfscompatible c fs then
        sprintf_pct02x c @ escape_pass sz fs 0 cs
      else c # escape_pass sz fs (sz c - 1) cs)"

text \<open>
  What the spec says of escaping, byte by byte: each byte that the family forbids becomes
  its escape, and every other byte stays as it is.
\<close>

definition escape_each :: "FileSystemType \<Rightarrow> string \<Rightarrow> string" where
  "escape_each fs name =
     concat (map (\<lambda>c. if islocalfscompatible c fs then [c] else sprintf_pct02x c) name)"

text \<open>
  A name holds a forbidden byte that the sequence sizes hide: the byte has a sequence size
  other than one, or it is one of the \<open>sz c - 1\<close> bytes that follow a byte \<open>c\<close> of a
  larger size (\<open>k\<close> is the number of such bytes still to come).
\<close>

fun forbidden_in_span :: "(char \<Rightarrow> nat) \<Rightarrow> FileSystemType \<Rightarrow> nat \<Rightarrow> string \<Rightarrow> bool" where
  "forbidden_in_span sz fs k [] = False"
| "forbidden_in_span sz fs k (c # cs) =
     (if 0 < k then \<not> islocalfscompatible c fs \<or> forbidden_in_span sz fs (k - 1) cs
      else (sz c \<noteq> 1 \<and> \<not> islocalfscompatible c fs) \<or> forbidden_in_span sz fs (sz c - 1) cs)"

text \<open>
  Well-formed names: a continuation byte of UTF-8 has the bits 10xxxxxx, and a name is
  well formed when it is a row of sequences, each a byte \<open>c\<close> followed by \<open>sz c - 1\<close>
  continuation bytes. The bytes below 128 are single-byte characters.
\<close>

definition continuation_byte :: "char \<Rightarrow> bool" where
  "continuation_byte c = (128 \<le> (of_char c :: nat) \<and> (of_char c :: nat) < 192)"

inductive wellformed_utf8 :: "(char \<Rightarrow> nat) \<Rightarrow> string \<Rightarrow> bool" for sz :: "char \<Rightarrow> nat" where
  wellformed_Nil: "wellformed_utf8 sz []"
| wellformed_Seq: "length conts = sz c - 1 \<Longrightarrow> list_all continuation_byte conts \<Longrightarrow>
     wellformed_utf8 sz rest \<Longrightarrow> wellformed_utf8 sz (c # conts @ rest)"

definition ascii_single :: "(char \<Rightarrow> nat) \<Rightarrow> bool" where
  "ascii_single sz = (\<forall>c. (of_char c :: nat) < 128 \<longrightarrow> sz c = 1)"

subsection \<open>Unescaping local names\<close>

text \<open>\<^verbatim>\<open>islchex\<close> compares byte codes: \<^verbatim>\<open>'0'\<close> to \<^verbatim>\<open>'9'\<close> are 48 to 57 and
  \<^verbatim>\<open>'a'\<close> to \<^verbatim>\<open>'f'\<close> are 97 to 102.\<close>

definition islchex :: "char \<Rightarrow> bool" where
  "islchex c =
     ((48 \<le> (of_char c :: nat) \<and> (of_char c :: nat) \<le> 57) \<or>
      (97 \<le> (of_char c :: nat) \<and> (of_char c :: nat) \<le> 102))"

text \<open>
  Modelled from the spec: \<^verbatim>\<open>MegaClient::hexval\<close> is defined outside the files at hand.
  It is only called on bytes that passed \<^verbatim>\<open>islchex\<close>, and gives the value of such a
  lower-case hexadecimal digit.
\<close>

definition hexval :: "char \<Rightarrow> nat" where
  "hexval c = (if 57 < (of_char c :: nat) then of_char c - 97 + 10 else of_char c - 48)"

text \<open>\<^verbatim>\<open>(*name)[k]\<close>: the byte at \<open>k\<close>, and the NUL byte at the position of the end.\<close>

definition str_at :: "string \<Rightarrow> nat \<Rightarrow> char" where
  "str_at s k = (if k < length s then s ! k else CHR 0x00)"

text \<open>The body of the loop of \<^verbatim>\<open>unescapefsincompatible\<close> at index \<open>i\<close>.\<close>

definition unescape_body :: "FileSystemType \<Rightarrow> string \<Rightarrow> nat \<Rightarrow> string" where
  "unescape_body fs name i =
     (if str_at name i = CHR ''%'' \<and> islchex (str_at name (i + 1)) \<and>
         islchex (str_at name (i + 2))
      then
        (let c = (char_of (hexval (str_at name (i + 1)) * 16 + hexval (str_at name (i + 2)))
                    :: char)
         in if \<not> islocalfscompatible c fs then take i name @ [c] @ drop (i + 3) name
            else name)
      else name)"

text \<open>
  \<^verbatim>\<open>for (int i = int(name->size()) - 2; i-- > 0; )\<close>: the third argument is the value of
  \<open>i\<close> that the condition tests; the body runs with that value less one.
\<close>

fun unescape_loop :: "FileSystemType \<Rightarrow> string \<Rightarrow> nat \<Rightarrow> string" where
  "unescape_loop fs name 0 = name"
| "unescape_loop fs name (Suc i) = unescape_loop fs (unescape_body fs name i) i"

definition unescapefsincompatible :: "platform \<Rightarrow> string \<Rightarrow> string option \<Rightarrow> string" where
  "unescapefsincompatible pf name localPath =
     (let validPath = getValidPath pf localPath
      in if name = ''%2e%2e'' then ''..''
         else if name = ''%2e'' then ''.''
         else unescape_loop (getlocalfstype pf (Some validPath)) name
                (nat (int (length name) - 2)))"

text \<open>A name starts with the well-formed escape of a byte the family forbids; a name holds
  such an escape somewhere.\<close>

fun escape_at :: "FileSystemType \<Rightarrow> string \<Rightarrow> bool" where
  "escape_at fs (p # a # b # r) =
     (p = CHR ''%'' \<and> islchex a \<and> islchex b \<and>
      \<not> islocalfscompatible (char_of (hexval a * 16 + hexval b)) fs)"
| "escape_at fs r = False"

fun has_escape :: "FileSystemType \<Rightarrow> string \<Rightarrow> bool" where
  "has_escape fs [] = False"
| "has_escape fs (c # cs) = (escape_at fs (c # cs) \<or> has_escape fs cs)"

text \<open>Prepending one byte to a name whose tail is already unescaped: one run of the loop body.\<close>

definition unescape_cons :: "FileSystemType \<Rightarrow> char \<Rightarrow> string \<Rightarrow> string" where
  "unescape_cons fs c r =
     (if escape_at fs (c # r) then char_of (hexval (r ! 0) * 16 + hexval (r ! 1)) # drop 2 r else c # r)"

text \<open>A platform for concrete evaluation: separator \<^verbatim>\<open>/\<close>, every volume of one family.\<close>

definition posix_volume :: "FileSystemType \<Rightarrow> platform" where
  "posix_volume t = \<lparr>getPathSeparator = ''/'', statfs_family = (\<lambda>p. Some t)\<rparr>"

subsection \<open>Unicode normalization of names\<close>

text \<open>
  \<^verbatim>\<open>utf8proc_NFC\<close> belongs to a third-party library: \<open>nfc\<close> stands for it, applied to
  the bytes of a NUL-terminated string, with \<open>None\<close> for its null result. A
  \<^verbatim>\<open>char*\<close> is read up to its first NUL byte.
\<close>

definition c_str :: "string \<Rightarrow> string" where
  "c_str s = takeWhile (\<lambda>c. c \<noteq> CHR 0x00) s"

text \<open>
  The loop of \<^verbatim>\<open>normalize\<close>; \<open>None\<close> is the path that clears the filename and
  returns.
\<close>

function normalize_loop ::
  "(string \<Rightarrow> string option) \<Rightarrow> string \<Rightarrow> nat \<Rightarrow> string \<Rightarrow> string option" where
  "normalize_loop nfc cfilename i result =
     (if i < length cfilename then
        (if cfilename ! i = CHR 0x00 then
           normalize_loop nfc cfilename (i + 1) (result @ [CHR 0x00])
         else
           (case nfc (c_str (drop i cfilename)) of
              None \<Rightarrow> None
            | Some normalized \<Rightarrow>
                normalize_loop nfc cfilename (i + length (c_str (drop i cfilename)))
                  (result @ c_str normalized)))
      else Some result)"
  by pat_completeness auto
termination
proof (relation "measure (\<lambda>(nfc, cfilename, i, result). length cfilename - i)")
  show "wf (measure (\<lambda>(nfc, cfilename, i, result). length cfilename - i))"
    by simp
next
  fix nfc :: "string \<Rightarrow> string option" and cfilename :: string and i :: nat and result :: string
  assume "i < length cfilename"
  then show "((nfc, cfilename, i + 1, result @ [CHR 0x00]), (nfc, cfilename, i, result))
      \<in> measure (\<lambda>(nfc, cfilename, i, result). length cfilename - i)"
    by simp
next
  fix nfc :: "string \<Rightarrow> string option" and cfilename :: string and i :: nat and result :: string
    and normalized :: string
  assume lt: "i < length cfilename" and nz: "cfilename ! i \<noteq> CHR 0x00"
  have "drop i cfilename = cfilename ! i # drop (Suc i) cfilename"
    using lt by (simp add: Cons_nth_drop_Suc)
  then have "0 < length (c_str (drop i cfilename))"
    using nz by (simp add: c_str_def)
  with lt have "length cfilename - (i + length (c_str (drop i cfilename))) < length cfilename - i"
    by arith
  then show "((nfc, cfilename, i + length (c_str (drop i cfilename)), result @ c_str normalized),
      (nfc, cfilename, i, result)) \<in> measure (\<lambda>(nfc, cfilename, i, result). length cfilename - i)"
    by simp
qed

declare normalize_loop.simps [simp del]

text \<open>\<^verbatim>\<open>FileSystemAccess::normalize\<close>: the new value of \<open>*filename\<close>; a null pointer is
  left alone.\<close>

definition normalize :: "(string \<Rightarrow> string option) \<Rightarrow> string option \<Rightarrow> string option" where
  "normalize nfc filename =
     (case filename of
        None \<Rightarrow> None
      | Some f \<Rightarrow>
          (case normalize_loop nfc f 0 [] of
             None \<Rightarrow> Some []
           | Some result \<Rightarrow> Some result))"

text \<open>The maximal NUL-free segments of a name (\<open>n\<close> NUL bytes separate \<open>n + 1\<close> segments,
  some of them possibly empty), and the name they spell.\<close>

fun nul_segments :: "string \<Rightarrow> string list" where
  "nul_segments [] = [[]]"
| "nul_segments (c # cs) =
     (if c = CHR 0x00 then [] # nul_segments cs
      else (case nul_segments cs of
              [] \<Rightarrow> [[c]]
            | s # ss \<Rightarrow> (c # s) # ss))"

fun join_nul :: "string list \<Rightarrow> string" where
  "join_nul [] = []"
| "join_nul [s] = s"
| "join_nul (s # t # ss) = s @ [CHR 0x00] @ join_nul (t # ss)"

text \<open>The composed form of a segment: the normaliser is not called on an empty one.\<close>

definition segment_nfc :: "(string \<Rightarrow> string option) \<Rightarrow> string \<Rightarrow> string option" where
  "segment_nfc nfc s = (if s = [] then Some [] else map_option c_str (nfc s))"

text \<open>The composed forms of all segments, or \<open>None\<close> when the normaliser fails on one.\<close>

fun all_segments :: "(string \<Rightarrow> string option) \<Rightarrow> string list \<Rightarrow> string list option" where
  "all_segments nfc [] = Some []"
| "all_segments nfc (s # ss) =
     (case segment_nfc nfc s of
        None \<Rightarrow> None
      | Some n \<Rightarrow> (case all_segments nfc ss of None \<Rightarrow> None | Some ns \<Rightarrow> Some (n # ns)))"

text \<open>
  A normaliser for concrete evaluation: it composes the letter e followed by the combining
  acute accent (bytes CC 81) into the single code point C3 A9, and fails on a string that
  holds the byte FF, which no UTF-8 text contains.
\<close>

fun compose_acute :: "string \<Rightarrow> string" where
  "compose_acute (a # b # c # r) =
     (if a = CHR ''e'' \<and> b = CHR 0xCC \<and> c = CHR 0x81 then CHR 0xC3 # CHR 0xA9 # compose_acute r
      else a # compose_acute (b # c # r))"
| "compose_acute r = r"

definition toy_nfc :: "string \<Rightarrow> string option" where
  "toy_nfc s = (if CHR 0xFF \<in> set s then None else Some (compose_acute s))"

subsection \<open>Opening a file again for reading\<close>

text \<open>
  The fields of \<^verbatim>\<open>FileAccess\<close> that \<^verbatim>\<open>openf\<close> and \<^verbatim>\<open>asyncopenf\<close> touch. The
  file was opened in non-blocking mode when \<^verbatim>\<open>nonblocking_localname\<close> is not empty;
  \<^verbatim>\<open>mtime\<close> and \<^verbatim>\<open>size\<close> hold what the stat of the original open captured.
\<close>

record FileAccess =
  nonblocking_localname :: string
  fa_mtime :: m_time_t
  fa_size :: m_off_t
  fa_retry :: bool
  isAsyncOpened :: bool
  numAsyncReads :: int

text \<open>
  The platform's \<^verbatim>\<open>sysstat\<close> and \<^verbatim>\<open>sysopen\<close> are pure virtual: \<open>sysstat\<close> is what a
  stat of the file yields now (\<open>None\<close> when it fails, else the current mtime and size) and
  \<open>sysopen\<close> whether the system open succeeds. The calls made are recorded in order.
\<close>

record filestate =
  sysstat :: "(m_time_t \<times> m_off_t) option"
  sysopen :: bool

datatype syscall = SysStat | SysOpen

definition openf :: "filestate \<Rightarrow> FileAccess \<Rightarrow> bool \<times> FileAccess \<times> syscall list" where
  "openf st fa =
     (if nonblocking_localname fa = [] then (True, fa, [])
      else (case sysstat st of
              None \<Rightarrow> (False, fa, [SysStat])
            | Some (curr_mtime, curr_size) \<Rightarrow>
                if curr_mtime \<noteq> fa_mtime fa \<or> curr_size \<noteq> fa_size fa then
                  (False,
                   fa\<lparr>fa_mtime := curr_mtime, fa_size := curr_size, fa_retry := False\<rparr>,
                   [SysStat])
                else (sysopen st, fa, [SysStat, SysOpen])))"

definition asyncopenf :: "filestate \<Rightarrow> FileAccess \<Rightarrow> bool \<times> FileAccess \<times> syscall list" where
  "asyncopenf st fa0 =
     (let fa = fa0\<lparr>numAsyncReads := numAsyncReads fa0 + 1\<rparr>
      in if nonblocking_localname fa = [] then (True, fa, [])
         else if isAsyncOpened fa then (True, fa, [])
         else (case sysstat st of
                 None \<Rightarrow> (False, fa, [SysStat])
               | Some (curr_mtime, curr_size) \<Rightarrow>
                   if curr_mtime \<noteq> fa_mtime fa \<or> curr_size \<noteq> fa_size fa then
                     (False,
                      fa\<lparr>fa_mtime := curr_mtime, fa_size := curr_size, fa_retry := False\<rparr>,
                      [SysStat])
                   else if sysopen st then (True, fa\<lparr>isAsyncOpened := True\<rparr>, [SysStat, SysOpen])
                   else (False, fa, [SysStat, SysOpen])))"

text \<open>A file for concrete evaluation: opened in non-blocking mode with mtime 1000 and size 10.\<close>

definition sample_file :: FileAccess where
  "sample_file = \<lparr>nonblocking_localname = ''x'', fa_mtime = 1000, fa_size = 10,
     fa_retry = True, isAsyncOpened = False, numAsyncReads = 0\<rparr>"

subsection \<open>Directory notifications\<close>

text \<open>
  The declarations that \<^verbatim>\<open>DirNotify::notify\<close> reads are outside the files at hand: the
  node types and queues are written as their enumerations name them, a deciseconds
  timestamp is an unsigned 32-bit value, and a \<^verbatim>\<open>LocalNode*\<close> is the address of the
  node, \<open>None\<close> when null.
\<close>

datatype nodetype_t = TYPE_UNKNOWN | FILENODE | FOLDERNODE | ROOTNODE | INCOMINGNODE | RUBBISHNODE

datatype notifyqueue = EXTRA | DIREVENTS | RETRY

type_synonym dstime = "32 word"

record Notification =
  timestamp :: dstime
  localnode :: "nat option"
  path :: string

record FileFingerprint =
  fp_size :: m_off_t
  fp_mtime :: m_time_t
  fp_crc :: "32 word list"
  fp_isvalid :: bool

text \<open>What \<^verbatim>\<open>notify\<close> reads of a cloud node: its back-link to a sync node, its fingerprint
  and its attribute map.\<close>

record CloudNode =
  n_localnode :: "nat option"
  n_fingerprint :: FileFingerprint
  n_attrs :: "char \<Rightarrow> string option"

text \<open>What \<^verbatim>\<open>notify\<close> reads of the sync node found at the notified path: its address,
  type, fingerprint (which holds its size and mtime), name, filesystem ID and paired cloud
  node.\<close>

record SyncNode =
  ln_addr :: nat
  ln_type :: nodetype_t
  ln_fingerprint :: FileFingerprint
  ln_name :: string
  ln_fsid :: handle
  ln_node :: "CloudNode option"

text \<open>The fields of the \<^verbatim>\<open>FileAccess\<close> object after \<^verbatim>\<open>fopen\<close> of the notified path.\<close>

record fopen_result =
  success :: bool
  fo_retry :: bool
  fsidvalid :: bool
  fo_fsid :: handle
  fo_type :: nodetype_t
  fo_mtime :: m_time_t
  fo_size :: m_off_t

text \<open>
  The surroundings of one call: the clock \<^verbatim>\<open>Waiter::ds\<close>, the local separator, the local
  path of a sync node, the result of opening a path, \<^verbatim>\<open>Sync::localnodebypath\<close> and the
  comparison of two fingerprints (both defined outside the files at hand).
\<close>

record notify_env =
  ds :: dstime
  localseparator :: string
  getlocalpath :: "nat \<Rightarrow> string"
  fopen :: "string \<Rightarrow> fopen_result"
  localnodebypath :: "nat option \<Rightarrow> string \<Rightarrow> SyncNode option"
  fp_equal :: "FileFingerprint \<Rightarrow> FileFingerprint \<Rightarrow> bool"

text \<open>The state \<^verbatim>\<open>notify\<close> changes: the queues, whether a sync is attached and is
  initializing, and the client's activity flag.\<close>

record DirNotify =
  notifyq :: "notifyqueue \<Rightarrow> Notification list"
  sync_attached :: bool
  initializing :: bool
  syncactivity :: bool

text \<open>The path that \<^verbatim>\<open>notify\<close> opens: the local path of the base node, the separator and
  the notified relative path.\<close>

definition notified_path :: "notify_env \<Rightarrow> nat option \<Rightarrow> string option \<Rightarrow> string" where
  "notified_path env l localpath =
     (let tmppath = (case l of Some a \<Rightarrow> getlocalpath env a | None \<Rightarrow> [])
      in case localpath of
           None \<Rightarrow> tmppath
         | Some p \<Rightarrow> (if tmppath \<noteq> [] then tmppath @ localseparator env else tmppath) @ p)"

text \<open>The condition under which \<^verbatim>\<open>notify\<close> logs "Self filesystem notification skipped".\<close>

definition self_notification :: "notify_env \<Rightarrow> nat option \<Rightarrow> string option \<Rightarrow> bool" where
  "self_notification env l localpath =
     (let path = (case localpath of Some p \<Rightarrow> p | None \<Rightarrow> []);
          fa = fopen env (notified_path env l localpath)
      in case localnodebypath env l path of
           None \<Rightarrow> \<not> success fa \<and> \<not> fo_retry fa
         | Some ll \<Rightarrow>
             success fa \<and>
             (case ln_node ll of
                None \<Rightarrow> False
              | Some node \<Rightarrow>
                  n_localnode node = Some (ln_addr ll) \<and>
                  (ln_type ll \<noteq> FILENODE \<or> fp_equal env (ln_fingerprint ll) (n_fingerprint node)) \<and>
                  (case n_attrs node (CHR ''n'') of
                     None \<Rightarrow> False
                   | Some name \<Rightarrow> name = ln_name ll) \<and>
                  fsidvalid fa \<and> fo_fsid fa = ln_fsid ll \<and> fo_type fa = ln_type ll \<and>
                  (ln_type ll \<noteq> FILENODE \<or>
                   (fp_mtime (ln_fingerprint ll) = fo_mtime fa \<and>
                    fp_size (ln_fingerprint ll) = fo_size fa))))"

text \<open>
  \<^verbatim>\<open>DirNotify::notify\<close> with \<^verbatim>\<open>ENABLE_SYNC\<close>. \<open>None\<close> is the dereference of a null
  \<^verbatim>\<open>sync\<close> in \<^verbatim>\<open>sync->client->syncactivity = true\<close>.
\<close>

definition notify ::
  "notify_env \<Rightarrow> DirNotify \<Rightarrow> notifyqueue \<Rightarrow> nat option \<Rightarrow> string option \<Rightarrow> bool
     \<Rightarrow> DirNotify option" where
  "notify env d q l localpath immediate =
     (let path = (case localpath of Some p \<Rightarrow> p | None \<Rightarrow> [])
      in if (q = DIREVENTS \<or> q = EXTRA) \<and> notifyq d q \<noteq> [] \<and>
            localnode (last (notifyq d q)) = l \<and> Notification.path (last (notifyq d q)) = path
         then
           (if timestamp (last (notifyq d q)) \<noteq> 0 then
              Some (d\<lparr>notifyq := (notifyq d)
                (q := butlast (notifyq d q) @
                   [(last (notifyq d q))\<lparr>timestamp := (if immediate then 0 else ds env)\<rparr>])\<rparr>)
            else Some d)
         else if \<not> immediate \<and> sync_attached d \<and> \<not> initializing d \<and> q = DIREVENTS \<and>
            self_notification env l localpath
         then Some d
         else if (q = DIREVENTS \<or> q = EXTRA) \<and> \<not> sync_attached d then None
         else
           Some (d\<lparr>syncactivity := (if q = DIREVENTS \<or> q = EXTRA then True else syncactivity d),
                   notifyq := (notifyq d)
                     (q := notifyq d q @
                        [\<lparr>timestamp = (if immediate then 0 else ds env), localnode = l,
                          path = path\<rparr>])\<rparr>))"

text \<open>
  Surroundings for concrete evaluation: a synced file \<^verbatim>\<open>a.txt\<close> under the sync root
  \<^verbatim>\<open>/sync\<close>, at address 7, paired with a cloud node of the same name and fingerprint,
  and a stat of any path that agrees with it.
\<close>

definition sample_fingerprint :: FileFingerprint where
  "sample_fingerprint = \<lparr>fp_size = 10, fp_mtime = 1000, fp_crc = [1, 2, 3, 4], fp_isvalid = True\<rparr>"

definition sample_cloudnode :: CloudNode where
  "sample_cloudnode = \<lparr>n_localnode = Some 7, n_fingerprint = sample_fingerprint,
     n_attrs = (\<lambda>k. if k = CHR ''n'' then Some ''a.txt'' else None)\<rparr>"

definition sample_syncnode :: SyncNode where
  "sample_syncnode = \<lparr>ln_addr = 7, ln_type = FILENODE, ln_fingerprint = sample_fingerprint,
     ln_name = ''a.txt'', ln_fsid = 42, ln_node = Some sample_cloudnode\<rparr>"

definition sample_env :: notify_env where
  "sample_env = \<lparr>ds = 77, localseparator = ''/'', getlocalpath = (\<lambda>a. ''/sync''),
     fopen = (\<lambda>p. \<lparr>success = True, fo_retry = False, fsidvalid = True, fo_fsid = 42,
                   fo_type = FILENODE, fo_mtime = 1000, fo_size = 10\<rparr>),
     localnodebypath = (\<lambda>l p. if p = ''a.txt'' then Some sample_syncnode else None),
     fp_equal = (\<lambda>a b. a = b)\<rparr>"

definition sample_dirnotify :: "Notification list \<Rightarrow> DirNotify" where
  "sample_dirnotify ns = \<lparr>notifyq = (\<lambda>q. if q = DIREVENTS then ns else []),
     sync_attached = True, initializing = False, syncactivity = False\<rparr>"

section \<open>Sync nodes (node.cpp)\<close>

subsection \<open>The index from filesystem IDs to sync nodes\<close>

text \<open>
  A \<^verbatim>\<open>LocalNode\<close> is known by its address. Of its fields, \<^verbatim>\<open>setfsid\<close> and the
  destructor read \<^verbatim>\<open>sync\<close> (here: whether it is set), \<^verbatim>\<open>fsid\<close> and \<^verbatim>\<open>fsid_it\<close>, the
  iterator into the index: the key of the entry it points at, \<open>None\<close> for
  \<^verbatim>\<open>fsidnode.end()\<close>. The index \<^verbatim>\<open>fsidnode\<close> is a \<^verbatim>\<open>std::map\<close> from filesystem ID
  to node address (its \<^verbatim>\<open>insert\<close> returns an iterator and a flag).
\<close>

record LocalNode_fsid =
  sync_set :: bool
  fsid :: handle
  fsid_it :: "handle option"

record fsid_heap =
  fsidnode :: "handle \<Rightarrow> nat option"
  localnodes :: "nat \<Rightarrow> LocalNode_fsid option"

text \<open>
  \<^verbatim>\<open>LocalNode::setfsid\<close> on the node at address \<open>this\<close>. A call on an address that holds
  no node, and the write through the pointer of an index entry whose node is gone, have
  no defined behaviour in the source: the model leaves the heap as it is there.
\<close>

definition setfsid :: "fsid_heap \<Rightarrow> nat \<Rightarrow> handle \<Rightarrow> fsid_heap" where
  "setfsid h this newfsid =
     (case localnodes h this of
        None \<Rightarrow> h
      | Some n \<Rightarrow>
          if \<not> sync_set n then h
          else if fsid_it n \<noteq> None \<and> newfsid = fsid n then h
          else
            (let fsidnodes = (case fsid_it n of
                                Some k \<Rightarrow> (fsidnode h)(k := None)
                              | None \<Rightarrow> fsidnode h);
                 n' = n\<lparr>fsid := newfsid, fsid_it := Some newfsid\<rparr>;
                 nodes' = (localnodes h)(this := Some n')
             in case fsidnodes newfsid of
                  None \<Rightarrow> \<lparr>fsidnode = fsidnodes(newfsid := Some this), localnodes = nodes'\<rparr>
                | Some prev \<Rightarrow>
                    \<lparr>fsidnode = fsidnodes(newfsid := Some this),
                     localnodes =
                       (case nodes' prev of
                          None \<Rightarrow> nodes'
                        | Some pn \<Rightarrow> nodes'(prev := Some (pn\<lparr>fsid_it := None\<rparr>)))\<rparr>))"

text \<open>The part of \<^verbatim>\<open>LocalNode::~LocalNode\<close> that concerns the index: the entry the node's
  iterator points at is erased, unless the destructor returns early for want of a sync;
  either way the node is gone.\<close>

definition destroy_localnode :: "fsid_heap \<Rightarrow> nat \<Rightarrow> fsid_heap" where
  "destroy_localnode h this =
     (case localnodes h this of
        None \<Rightarrow> h
      | Some n \<Rightarrow>
          if \<not> sync_set n then h\<lparr>localnodes := (localnodes h)(this := None)\<rparr>
          else
            \<lparr>fsidnode = (case fsid_it n of
                           Some k \<Rightarrow> (fsidnode h)(k := None)
                         | None \<Rightarrow> fsidnode h),
             localnodes = (localnodes h)(this := None)\<rparr>)"

text \<open>A new node at a free address: \<^verbatim>\<open>init\<close> and \<^verbatim>\<open>unserialize\<close> both mark its
  filesystem ID as not valid (\<^verbatim>\<open>fsid_it = fsidnode.end()\<close>), whatever \<^verbatim>\<open>fsid\<close> holds.\<close>

definition new_localnode :: "fsid_heap \<Rightarrow> nat \<Rightarrow> handle \<Rightarrow> fsid_heap" where
  "new_localnode h a f =
     (case localnodes h a of
        Some n \<Rightarrow> h
      | None \<Rightarrow> h\<lparr>localnodes := (localnodes h)(a := Some \<lparr>sync_set = True, fsid = f, fsid_it = None\<rparr>)\<rparr>)"

datatype fsid_op = NewNode nat handle | SetFsid nat handle | Destroy nat

fun fsid_step :: "fsid_heap \<Rightarrow> fsid_op \<Rightarrow> fsid_heap" where
  "fsid_step h (NewNode a f) = new_localnode h a f"
| "fsid_step h (SetFsid a f) = setfsid h a f"
| "fsid_step h (Destroy a) = destroy_localnode h a"

definition empty_fsid_heap :: fsid_heap where
  "empty_fsid_heap = \<lparr>fsidnode = (\<lambda>k. None), localnodes = (\<lambda>a. None)\<rparr>"

definition fsid_run :: "fsid_op list \<Rightarrow> fsid_heap" where
  "fsid_run ops = foldl fsid_step empty_fsid_heap ops"

text \<open>Every index entry points at a live node whose iterator points back at the entry and
  whose \<^verbatim>\<open>fsid\<close> is the key; every node whose iterator is set owns the entry it points
  at.\<close>

definition fsid_index_ok :: "fsid_heap \<Rightarrow> bool" where
  "fsid_index_ok h =
     ((\<forall>k a. fsidnode h k = Some a \<longrightarrow>
         (\<exists>n. localnodes h a = Some n \<and> fsid_it n = Some k)) \<and>
      (\<forall>a n k. localnodes h a = Some n \<and> fsid_it n = Some k \<longrightarrow>
         fsidnode h k = Some a \<and> fsid n = k \<and> sync_set n))"

subsection \<open>Pairing a sync node with a cloud node\<close>

text \<open>
  Sync nodes and cloud nodes are known by their addresses. \<^verbatim>\<open>LocalNode::node\<close> and
  \<^verbatim>\<open>Node::localnode\<close> are the two ends of a \<^verbatim>\<open>crossref_ptr\<close> pair; \<open>None\<close> is the
  null pointer. The back-link is written \<open>localnode'\<close>, apart from the field of a
  notification.
\<close>

record LocalNode_xref =
  node :: "nat option"
  deleted :: bool

record Node_xref =
  localnode' :: "nat option"

record xref_heap =
  syncnodes :: "nat \<Rightarrow> LocalNode_xref option"
  cloudnodes :: "nat \<Rightarrow> Node_xref option"

text \<open>
  Modelled from the spec: the class template \<^verbatim>\<open>crossref_ptr\<close> is declared outside the
  files at hand. The pairing is a bidirectional relation: \<^verbatim>\<open>reset\<close> on one end clears
  that end and the end of the partner that points back, and \<^verbatim>\<open>crossref\<close> sets both
  ends. A pointer to an object that is gone is not followed.
\<close>

definition reset_node :: "xref_heap \<Rightarrow> nat \<Rightarrow> xref_heap" where
  "reset_node h l =
     (case syncnodes h l of
        None \<Rightarrow> h
      | Some ln \<Rightarrow>
          (case node ln of
             None \<Rightarrow> h
           | Some c \<Rightarrow>
               \<lparr>syncnodes = (syncnodes h)(l := Some (ln\<lparr>node := None\<rparr>)),
                cloudnodes = (case cloudnodes h c of
                                None \<Rightarrow> cloudnodes h
                              | Some cn \<Rightarrow> (cloudnodes h)(c := Some (cn\<lparr>localnode' := None\<rparr>)))\<rparr>))"

definition reset_localnode :: "xref_heap \<Rightarrow> nat \<Rightarrow> xref_heap" where
  "reset_localnode h c =
     (case cloudnodes h c of
        None \<Rightarrow> h
      | Some cn \<Rightarrow>
          (case localnode' cn of
             None \<Rightarrow> h
           | Some l \<Rightarrow>
               \<lparr>syncnodes = (case syncnodes h l of
                               None \<Rightarrow> syncnodes h
                             | Some ln \<Rightarrow> (syncnodes h)(l := Some (ln\<lparr>node := None\<rparr>))),
                cloudnodes = (cloudnodes h)(c := Some (cn\<lparr>localnode' := None\<rparr>))\<rparr>))"

definition crossref :: "xref_heap \<Rightarrow> nat \<Rightarrow> nat \<Rightarrow> xref_heap" where
  "crossref h to from =
     (case (syncnodes h from, cloudnodes h to) of
        (Some ln, Some cn) \<Rightarrow>
          \<lparr>syncnodes = (syncnodes h)(from := Some (ln\<lparr>node := Some to\<rparr>)),
           cloudnodes = (cloudnodes h)(to := Some (cn\<lparr>localnode' := Some from\<rparr>))\<rparr>
      | _ \<Rightarrow> h)"

text \<open>\<^verbatim>\<open>LocalNode::setnode\<close> on the sync node at address \<open>this\<close>.\<close>

definition setnode :: "xref_heap \<Rightarrow> nat \<Rightarrow> nat option \<Rightarrow> xref_heap" where
  "setnode h this cnode =
     (case syncnodes h this of
        None \<Rightarrow> h
      | Some ln \<Rightarrow>
          (let h1 = h\<lparr>syncnodes := (syncnodes h)(this := Some (ln\<lparr>deleted := False\<rparr>))\<rparr>;
               h2 = reset_node h1 this
           in case cnode of
                None \<Rightarrow> h2
              | Some c \<Rightarrow> crossref (reset_localnode h2 c) c this))"

text \<open>The part of \<^verbatim>\<open>Node::~Node\<close> that concerns the pairing: the paired sync node is
  marked deleted and the link is reset; the cloud node is gone.\<close>

definition destroy_node :: "xref_heap \<Rightarrow> nat \<Rightarrow> xref_heap" where
  "destroy_node h c =
     (case cloudnodes h c of
        None \<Rightarrow> h
      | Some cn \<Rightarrow>
          (let h1 = (case localnode' cn of
                       None \<Rightarrow> h
                     | Some l \<Rightarrow>
                         (case syncnodes h l of
                            None \<Rightarrow> h
                          | Some ln \<Rightarrow>
                              reset_localnode
                                (h\<lparr>syncnodes := (syncnodes h)(l := Some (ln\<lparr>deleted := True\<rparr>))\<rparr>) c))
           in h1\<lparr>cloudnodes := (cloudnodes h1)(c := None)\<rparr>))"

text \<open>The cross-reference invariant: a sync node pairs a cloud node exactly when that cloud
  node is live and its back-link is the sync node.\<close>

definition xref_ok :: "xref_heap \<Rightarrow> bool" where
  "xref_ok h =
     ((\<forall>l ln c. syncnodes h l = Some ln \<and> node ln = Some c \<longrightarrow>
         (\<exists>cn. cloudnodes h c = Some cn \<and> localnode' cn = Some l)) \<and>
      (\<forall>c cn l. cloudnodes h c = Some cn \<and> localnode' cn = Some l \<longrightarrow>
         (\<exists>ln. syncnodes h l = Some ln \<and> node ln = Some c)))"

text \<open>A heap for concrete evaluation: sync node 1 paired with cloud node 5, and sync node 2
  with cloud node 6.\<close>

definition two_pairs :: xref_heap where
  "two_pairs =
     \<lparr>syncnodes = (\<lambda>a. None)(1 := Some \<lparr>node = Some 5, deleted = False\<rparr>,
                              2 := Some \<lparr>node = Some 6, deleted = False\<rparr>),
      cloudnodes = (\<lambda>a. None)(5 := Some \<lparr>localnode' = Some 1\<rparr>,
                               6 := Some \<lparr>localnode' = Some 2\<rparr>)\<rparr>"

subsection \<open>The cache record of a sync node\<close>

text \<open>
  Modelled from the spec: the enumeration \<^verbatim>\<open>nodetype_t\<close> and the constant \<^verbatim>\<open>UNDEF\<close> are
  declared outside the files at hand. \<^verbatim>\<open>serialize\<close> stores the size where \<^verbatim>\<open>type\<close> is
  zero and \<^verbatim>\<open>unserialize\<close> takes that case for a file, so \<^verbatim>\<open>FILENODE\<close> is 0; the other
  types follow in the order of the spec's data model, \<^verbatim>\<open>FOLDERNODE\<close> being 1. \<^verbatim>\<open>UNDEF\<close>
  is the handle with all bits set.
\<close>

fun nodetype_value :: "nodetype_t \<Rightarrow> int" where
  "nodetype_value TYPE_UNKNOWN = - 1"
| "nodetype_value FILENODE = 0"
| "nodetype_value FOLDERNODE = 1"
| "nodetype_value ROOTNODE = 2"
| "nodetype_value INCOMINGNODE = 3"
| "nodetype_value RUBBISHNODE = 4"

definition nodetype_of :: "int \<Rightarrow> nodetype_t" where
  "nodetype_of v =
     (if v = 0 then FILENODE else if v = 1 then FOLDERNODE else if v = 2 then ROOTNODE
      else if v = 3 then INCOMINGNODE else if v = 4 then RUBBISHNODE else TYPE_UNKNOWN)"

definition UNDEF :: handle where
  "UNDEF = - 1"

text \<open>
  The fields of a \<^verbatim>\<open>LocalNode\<close> that \<^verbatim>\<open>serialize\<close> reads and \<^verbatim>\<open>unserialize\<close> sets.
  \<open>l_parent\<close> is the \<^verbatim>\<open>dbid\<close> of the parent node (\<open>None\<close> without a parent); a
  \<^verbatim>\<open>Node*\<close> is the handle of that cloud node, the key of the client's node table; a
  \<^verbatim>\<open>LocalPath\<close> is its platform-encoded bytes; \<open>l_crc\<close> is the storage of the four
  32-bit words of the fingerprint.
\<close>

record LocalNode =
  l_type :: nodetype_t
  l_size :: m_off_t
  l_fsid :: handle
  l_fsid_it :: "handle option"
  l_parent :: "32 word option"
  l_parent_dbid :: "32 word"
  l_node :: "handle option"
  l_localname :: string
  l_slocalname :: "string option"
  l_slocalname_in_db :: bool
  l_name :: string
  l_crc :: string
  l_mtime :: m_time_t
  l_isvalid :: bool
  l_mSyncable :: bool
  l_created :: bool
  l_reported :: bool
  l_checked :: bool
  l_needsRescan :: bool

text \<open>
  \<^verbatim>\<open>CacheableWriter\<close> and \<^verbatim>\<open>CacheableReader\<close> are defined outside the files at hand:
  their operations are parameters. A writer gives the bytes it appends; a reader takes the
  bytes that are left and gives the value and the bytes left after it, or \<open>None\<close> when
  it returns false. \<open>NODEHANDLE\<close> is the constant \<^verbatim>\<open>MegaClient::NODEHANDLE\<close>.
\<close>

type_synonym 'a reader = "string \<Rightarrow> ('a \<times> string) option"

record cacheable =
  serializei64 :: "m_off_t \<Rightarrow> string"
  unserializei64 :: "m_off_t reader"
  serializehandle :: "handle \<Rightarrow> string"
  unserializehandle :: "handle reader"
  serializeu32 :: "32 word \<Rightarrow> string"
  unserializeu32 :: "32 word reader"
  serializenodehandle :: "handle \<Rightarrow> string"
  unserializenodehandle :: "handle reader"
  serializestring :: "string \<Rightarrow> string"
  unserializestring :: "string reader"
  serializebinary :: "string \<Rightarrow> string"
  unserializebinary :: "nat \<Rightarrow> string reader"
  serializecompressed64 :: "64 word \<Rightarrow> string"
  unserializecompressed64 :: "64 word reader"
  serializebyte :: "8 word \<Rightarrow> string"
  unserializebyte :: "8 word reader"
  serializeexpansionflags :: "bool \<Rightarrow> string"
  unserializeexpansionflags :: "nat \<Rightarrow> (8 word list) reader"
  serializepstr :: "string option \<Rightarrow> string"
  unserializecstr :: "bool \<Rightarrow> string reader"
  NODEHANDLE :: nat

text \<open>The surroundings of \<^verbatim>\<open>unserialize\<close>: whether \<^verbatim>\<open>nodebyhandle\<close> finds a cloud node
  under a handle, and \<^verbatim>\<open>LocalPath::toName\<close>.\<close>

record client =
  nodebyhandle :: "handle \<Rightarrow> bool"
  toName :: "string \<Rightarrow> string"

text \<open>\<^verbatim>\<open>LocalNode::serialize\<close>: the bytes appended to \<open>*d\<close> (it always returns true).\<close>

definition serialize :: "cacheable \<Rightarrow> LocalNode \<Rightarrow> string" where
  "serialize C l =
     serializei64 C (if nodetype_value (l_type l) \<noteq> 0
                     then word_of_int (- nodetype_value (l_type l)) else l_size l) @
     serializehandle C (l_fsid l) @
     serializeu32 C (case l_parent l of Some dbid \<Rightarrow> dbid | None \<Rightarrow> 0) @
     serializenodehandle C (case l_node l of Some nodehandle \<Rightarrow> nodehandle | None \<Rightarrow> UNDEF) @
     serializestring C (l_localname l) @
     (if l_type l = FILENODE
      then serializebinary C (l_crc l) @ serializecompressed64 C (l_mtime l) else []) @
     serializebyte C (if l_mSyncable l then 1 else 0) @
     serializeexpansionflags C True @
     serializepstr C (l_slocalname l)"

text \<open>
  \<^verbatim>\<open>LocalNode::unserialize\<close>, one step per field; \<open>None\<close> is the null result. The steps
  after the local name follow the short-circuit order of the source's condition. The
  assertion that no data is left comes after the last step and changes no result.
\<close>

definition unserialize_tail ::
  "cacheable \<Rightarrow> client \<Rightarrow> nodetype_t \<Rightarrow> m_off_t \<Rightarrow> handle \<Rightarrow> 32 word \<Rightarrow> handle \<Rightarrow> string
     \<Rightarrow> string \<Rightarrow> m_time_t \<Rightarrow> string \<Rightarrow> LocalNode option" where
  "unserialize_tail C cl ntype nsize fsid' parent_dbid h localname crc mtime r =
     (case (if r \<noteq> [] then unserializebyte C r else Some (1, r)) of
        None \<Rightarrow> None
      | Some (syncable, r1) \<Rightarrow>
          (case (if r1 \<noteq> [] then unserializeexpansionflags C 1 r1
                 else Some (replicate 8 0, r1)) of
             None \<Rightarrow> None
           | Some (expansionflags, r2) \<Rightarrow>
               (case (if expansionflags ! 0 \<noteq> 0 then unserializecstr C False r2
                      else Some ([], r2)) of
                  None \<Rightarrow> None
                | Some (shortname, r3) \<Rightarrow>
                    Some \<lparr>l_type = ntype, l_size = nsize, l_fsid = fsid', l_fsid_it = None,
                      l_parent = None, l_parent_dbid = parent_dbid,
                      l_node = (if nodebyhandle cl h then Some h else None),
                      l_localname = localname,
                      l_slocalname = (if shortname = [] then None else Some shortname),
                      l_slocalname_in_db = (expansionflags ! 0 \<noteq> 0),
                      l_name = toName cl localname,
                      l_crc = crc, l_mtime = mtime, l_isvalid = True,
                      l_mSyncable = (syncable = 1),
                      l_created = False, l_reported = False, l_checked = (h \<noteq> UNDEF),
                      l_needsRescan = False\<rparr>)))"

definition unserialize :: "cacheable \<Rightarrow> client \<Rightarrow> string \<Rightarrow> LocalNode option" where
  "unserialize C cl d =
     (if length d < 8 + 8 + 4 + NODEHANDLE C + 2 then None
      else
        (case unserializei64 C d of
           None \<Rightarrow> None
         | Some (size0, r1) \<Rightarrow>
             (let ntype = (if sint size0 < 0 \<and> sint size0 \<ge> - nodetype_value FOLDERNODE
                          then nodetype_of (- sint size0) else FILENODE);
                  nsize = (if sint size0 < 0 \<and> sint size0 \<ge> - nodetype_value FOLDERNODE
                          then 0 else size0)
              in case unserializehandle C r1 of
                   None \<Rightarrow> None
                 | Some (fsid', r2) \<Rightarrow>
                     (case unserializeu32 C r2 of
                        None \<Rightarrow> None
                      | Some (parent_dbid, r3) \<Rightarrow>
                          (case unserializenodehandle C r3 of
                             None \<Rightarrow> None
                           | Some (h, r4) \<Rightarrow>
                               (case unserializestring C r4 of
                                  None \<Rightarrow> None
                                | Some (localname, r5) \<Rightarrow>
                                    if ntype = FILENODE then
                                      (case unserializebinary C 16 r5 of
                                         None \<Rightarrow> None
                                       | Some (crc, r6) \<Rightarrow>
                                           (case unserializecompressed64 C r6 of
                                              None \<Rightarrow> None
                                            | Some (mtime, r7) \<Rightarrow>
                                                unserialize_tail C cl ntype nsize fsid' parent_dbid
                                                  h localname crc mtime r7))
                                    else
                                      unserialize_tail C cl ntype nsize fsid' parent_dbid h
                                        localname (replicate 16 (CHR 0x00)) 0 r5))))))"

text \<open>
  The law of a writer and its reader: the reader gives back the value written and the
  bytes that follow it. The fixed-width fields have the widths that the length check of
  \<^verbatim>\<open>unserialize\<close> names; a node handle keeps its low \<open>NODEHANDLE\<close> bytes; a string has a
  16-bit length in front and so fewer than 65536 bytes.
\<close>

definition cacheable_ok :: "cacheable \<Rightarrow> bool" where
  "cacheable_ok C =
     ((\<forall>v r. unserializei64 C (serializei64 C v @ r) = Some (v, r)) \<and>
      (\<forall>v. length (serializei64 C v) = 8) \<and>
      (\<forall>v r. unserializehandle C (serializehandle C v @ r) = Some (v, r)) \<and>
      (\<forall>v. length (serializehandle C v) = 8) \<and>
      (\<forall>v r. unserializeu32 C (serializeu32 C v @ r) = Some (v, r)) \<and>
      (\<forall>v. length (serializeu32 C v) = 4) \<and>
      (\<forall>v r. unserializenodehandle C (serializenodehandle C v @ r)
               = Some (take_bit (8 * NODEHANDLE C) v, r)) \<and>
      (\<forall>v. length (serializenodehandle C v) = NODEHANDLE C) \<and>
      (\<forall>s r. length s < 65536 \<longrightarrow> unserializestring C (serializestring C s @ r) = Some (s, r)) \<and>
      (\<forall>s. 2 \<le> length (serializestring C s)) \<and>
      (\<forall>s r. unserializebinary C (length s) (serializebinary C s @ r) = Some (s, r)) \<and>
      (\<forall>v r. unserializecompressed64 C (serializecompressed64 C v @ r) = Some (v, r)) \<and>
      (\<forall>v r. unserializebyte C (serializebyte C v @ r) = Some (v, r)) \<and>
      (\<forall>v. serializebyte C v \<noteq> []) \<and>
      (\<forall>b r. \<exists>flags. unserializeexpansionflags C 1 (serializeexpansionflags C b @ r)
                        = Some (flags, r) \<and> (flags ! 0 \<noteq> 0) = b) \<and>
      (\<forall>b. serializeexpansionflags C b \<noteq> []) \<and>
      (\<forall>r. unserializecstr C False (serializepstr C None @ r) = Some ([], r)) \<and>
      (\<forall>s r. length s < 65536 \<longrightarrow>
               unserializecstr C False (serializepstr C (Some s) @ r) = Some (s, r)))"

text \<open>
  The state of a sync node that the record can hold: a file or a folder; a file's size is
  not the \<open>-1\<close> that stands for a folder and its fingerprint storage has 16 bytes; the
  names fit a 16-bit length and a short name, when present, is not empty; the paired cloud
  node is in the client's table under a handle of \<open>NODEHANDLE\<close> bytes, and for an
  unpaired node the table holds nothing under the stored bytes of \<^verbatim>\<open>UNDEF\<close>.
\<close>

definition valid_localnode :: "cacheable \<Rightarrow> client \<Rightarrow> LocalNode \<Rightarrow> bool" where
  "valid_localnode C cl l =
     ((l_type l = FILENODE \<or> l_type l = FOLDERNODE) \<and>
      (l_type l = FILENODE \<longrightarrow> l_size l \<noteq> - 1 \<and> length (l_crc l) = 16) \<and>
      length (l_localname l) < 65536 \<and>
      (case l_slocalname l of None \<Rightarrow> True | Some s \<Rightarrow> s \<noteq> [] \<and> length s < 65536) \<and>
      (case l_node l of
         None \<Rightarrow> \<not> nodebyhandle cl (take_bit (8 * NODEHANDLE C) UNDEF)
       | Some h \<Rightarrow> nodebyhandle cl h \<and> take_bit (8 * NODEHANDLE C) h = h))"

text \<open>What \<^verbatim>\<open>unserialize\<close> makes of the record of a node.\<close>

definition restored :: "cacheable \<Rightarrow> client \<Rightarrow> LocalNode \<Rightarrow> LocalNode" where
  "restored C cl l =
     \<lparr>l_type = l_type l,
      l_size = (if l_type l = FILENODE then l_size l else 0),
      l_fsid = l_fsid l, l_fsid_it = None, l_parent = None,
      l_parent_dbid = (case l_parent l of Some dbid \<Rightarrow> dbid | None \<Rightarrow> 0),
      l_node = l_node l,
      l_localname = l_localname l,
      l_slocalname = l_slocalname l,
      l_slocalname_in_db = True,
      l_name = toName cl (l_localname l),
      l_crc = (if l_type l = FILENODE then l_crc l else replicate 16 (CHR 0x00)),
      l_mtime = (if l_type l = FILENODE then l_mtime l else 0),
      l_isvalid = True,
      l_mSyncable = l_mSyncable l,
      l_created = False, l_reported = False,
      l_checked = (take_bit (8 * NODEHANDLE C)
                     (case l_node l of Some h \<Rightarrow> h | None \<Rightarrow> UNDEF) \<noteq> UNDEF),
      l_needsRescan = False\<rparr>"

text \<open>
  A writer and reader for concrete evaluation: fixed-width fields are little-endian raw
  bytes, a node handle has 6 of them, a string has its 16-bit length in front, and the
  expansion flags are 8 bytes of which the reader accepts only the used ones to be set.
\<close>

primrec le_bytes :: "nat \<Rightarrow> nat \<Rightarrow> string" where
  "le_bytes 0 v = []"
| "le_bytes (Suc n) v = char_of (v mod 256) # le_bytes n (v div 256)"

fun le_value :: "string \<Rightarrow> nat" where
  "le_value [] = 0"
| "le_value (c # cs) = of_char c + 256 * le_value cs"

definition put_le :: "nat \<Rightarrow> 'a::len word \<Rightarrow> string" where
  "put_le n w = le_bytes n (unat w)"

definition get_le :: "nat \<Rightarrow> ('a::len word) reader" where
  "get_le n s =
     (if length s < n then None else Some (word_of_nat (le_value (take n s)), drop n s))"

definition put_str :: "string \<Rightarrow> string" where
  "put_str s = le_bytes 2 (length s) @ take (length s mod 65536) s"

definition get_str :: "string reader" where
  "get_str s =
     (if length s < 2 then None
      else if length s - 2 < le_value (take 2 s) then None
      else Some (take (le_value (take 2 s)) (drop 2 s), drop (le_value (take 2 s)) (drop 2 s)))"

definition get_flags :: "nat \<Rightarrow> (8 word list) reader" where
  "get_flags used s =
     (if length s < 8 then None
      else if list_ex (\<lambda>c. c \<noteq> CHR 0x00) (drop used (take 8 s)) then None
      else Some (map (\<lambda>c. word_of_nat (of_char c)) (take 8 s), drop 8 s))"

definition raw_cacheable :: cacheable where
  "raw_cacheable =
     \<lparr>serializei64 = put_le 8, unserializei64 = get_le 8,
      serializehandle = put_le 8, unserializehandle = get_le 8,
      serializeu32 = put_le 4, unserializeu32 = get_le 4,
      serializenodehandle = put_le 6, unserializenodehandle = get_le 6,
      serializestring = put_str, unserializestring = get_str,
      serializebinary = (\<lambda>s. s),
      unserializebinary = (\<lambda>n s. if length s < n then None else Some (take n s, drop n s)),
      serializecompressed64 = put_le 8, unserializecompressed64 = get_le 8,
      serializebyte = put_le 1, unserializebyte = get_le 1,
      serializeexpansionflags = (\<lambda>b. (if b then CHR 0x01 else CHR 0x00) # replicate 7 (CHR 0x00)),
      unserializeexpansionflags = get_flags,
      serializepstr = (\<lambda>p. case p of None \<Rightarrow> put_str [] | Some s \<Rightarrow> put_str s),
      unserializecstr = (\<lambda>removeNull. get_str),
      NODEHANDLE = 6\<rparr>"

text \<open>A client that knows the cloud node of handle 77, and two sync nodes: a file paired with
  that cloud node, and an unpaired folder whose size field holds \<open>-1\<close>.\<close>

definition sample_client :: client where
  "sample_client = \<lparr>nodebyhandle = (\<lambda>h. h = 77), toName = (\<lambda>s. s)\<rparr>"

definition sample_filenode :: LocalNode where
  "sample_filenode =
     \<lparr>l_type = FILENODE, l_size = 10, l_fsid = 42, l_fsid_it = Some 42, l_parent = Some 3,
      l_parent_dbid = 0, l_node = Some 77, l_localname = ''a.txt'', l_slocalname = Some ''A~1.TXT'',
      l_slocalname_in_db = False, l_name = ''a.txt'', l_crc = replicate 16 (CHR ''c''),
      l_mtime = 1000, l_isvalid = True, l_mSyncable = True, l_created = True,
      l_reported = False, l_checked = True, l_needsRescan = False\<rparr>"

definition sample_foldernode :: LocalNode where
  "sample_foldernode =
     \<lparr>l_type = FOLDERNODE, l_size = - 1, l_fsid = 43, l_fsid_it = Some 43, l_parent = Some 3,
      l_parent_dbid = 0, l_node = None, l_localname = ''docs'', l_slocalname = None,
      l_slocalname_in_db = False, l_name = ''docs'', l_crc = replicate 16 (CHR 0x00),
      l_mtime = 0, l_isvalid = False, l_mSyncable = True, l_created = True,
      l_reported = False, l_checked = False, l_needsRescan = False\<rparr>"

section \<open>Auxiliary lemmas\<close>

subsection \<open>Escaping and unescaping\<close>

lemma hexdigit_mem: "k < 16 \<Longrightarrow> hexdigit k \<in> set ''0123456789abcdef''"
  unfolding hexdigit_def by (intro nth_mem) simp

lemma escape_loop_refines:
  assumes ok: "seqsize_ok sz"
  shows "escape_loop sz fs (pre @ rest) (length pre + k) = Some (pre @ escape_pass sz fs k rest)"
proof (induction rest arbitrary: pre k)
  case Nil
  show ?case by (subst escape_loop.simps) simp
next
  case (Cons c cs)
  show ?case
  proof (cases "0 < k")
    case True
    have "escape_loop sz fs ((pre @ [c]) @ cs) (length (pre @ [c]) + (k - 1))
        = Some ((pre @ [c]) @ escape_pass sz fs (k - 1) cs)"
      by (rule Cons.IH)
    with True show ?thesis by simp
  next
    case False
    then have k0: "k = 0" by simp
    have pos: "0 < sz c" using ok by (simp add: seqsize_ok_def)
    show ?thesis
    proof (cases "sz c = 1 \<and> \<not> islocalfscompatible c fs")
      case True
      let ?h1 = "hexdigit ((of_char c :: nat) div 16)"
      let ?h2 = "hexdigit ((of_char c :: nat) mod 16)"
      let ?name' = "pre @ [CHR ''%'', ?h1, ?h2] @ cs"
      have m1: "?h1 \<in> set ''0123456789abcdef''"
        by (rule hexdigit_mem) (simp add: less_mult_imp_div_less)
      have m2: "?h2 \<in> set ''0123456789abcdef''"
        by (rule hexdigit_mem) simp
      have s1: "sz ?h1 = 1" using ok m1 unfolding seqsize_ok_def by blast
      have s2: "sz ?h2 = 1" using ok m2 unfolding seqsize_ok_def by blast
      have c1: "islocalfscompatible ?h1 fs"
        by (rule hexdigit_compatible) (simp add: less_mult_imp_div_less)
      have c2: "islocalfscompatible ?h2 fs"
        by (rule hexdigit_compatible) simp
      have step0: "escape_loop sz fs (pre @ c # cs) (length pre) = escape_loop sz fs ?name' (length pre + 1)"
        using True by (subst escape_loop.simps) (simp add: sprintf_pct02x_def)
      have n1: "?name' ! (length pre + 1) = ?h1" by (simp add: nth_append)
      have step1: "escape_loop sz fs ?name' (length pre + 1) = escape_loop sz fs ?name' (length pre + 2)"
        using s1 c1 n1 by (subst escape_loop.simps) simp
      have n2: "?name' ! (length pre + 2) = ?h2" by (simp add: nth_append)
      have step2: "escape_loop sz fs ?name' (length pre + 2) = escape_loop sz fs ?name' (length pre + 3)"
        using s2 c2 n2 by (subst escape_loop.simps) (simp add: numeral_3_eq_3)
      have "escape_loop sz fs ((pre @ [CHR ''%'', ?h1, ?h2]) @ cs) (length (pre @ [CHR ''%'', ?h1, ?h2]) + 0)
          = Some ((pre @ [CHR ''%'', ?h1, ?h2]) @ escape_pass sz fs 0 cs)"
        by (rule Cons.IH)
      then have step3: "escape_loop sz fs ?name' (length pre + 3) = Some (pre @ [CHR ''%'', ?h1, ?h2] @ escape_pass sz fs 0 cs)"
        by (simp add: numeral_3_eq_3)
      show ?thesis
        using True k0 step0 step1 step2 step3 by (simp add: sprintf_pct02x_def)
    next
      case False
      have step0: "escape_loop sz fs (pre @ c # cs) (length pre) = escape_loop sz fs (pre @ c # cs) (length pre + sz c)"
        using False pos by (subst escape_loop.simps) auto
      have "escape_loop sz fs ((pre @ [c]) @ cs) (length (pre @ [c]) + (sz c - 1))
          = Some ((pre @ [c]) @ escape_pass sz fs (sz c - 1) cs)"
        by (rule Cons.IH)
      then have "escape_loop sz fs (pre @ c # cs) (length pre + sz c) = Some (pre @ c # escape_pass sz fs (sz c - 1) cs)"
        using pos by simp
      with step0 False k0 show ?thesis by auto
    qed
  qed
qed

lemma utf8SequenceSize_ok: "seqsize_ok utf8SequenceSize"
  unfolding seqsize_ok_def by (simp add: utf8SequenceSize_def Let_def)

lemma islchex_nul: "\<not> islchex (CHR 0x00)" by (simp add: islchex_def)

lemma unescape_body_cons:
  "unescape_body fs (pre @ c # r) (length pre) = pre @ unescape_cons fs c r"
proof (cases r)
  case Nil
  then show ?thesis by (simp add: unescape_body_def unescape_cons_def str_at_def islchex_nul)
next
  case (Cons a r1)
  note r = Cons
  show ?thesis
  proof (cases r1)
    case Nil
    with r show ?thesis by (simp add: unescape_body_def unescape_cons_def str_at_def islchex_nul nth_append)
  next
    case (Cons b r2)
    with r show ?thesis
      by (simp add: unescape_body_def unescape_cons_def str_at_def nth_append Let_def)
  qed
qed

lemma unescape_loop_foldr:
  "unescape_loop fs (pre @ post) (length pre) = foldr (unescape_cons fs) pre post"
proof (induction pre arbitrary: post rule: rev_induct)
  case Nil
  show ?case by simp
next
  case (snoc c pre)
  have "unescape_loop fs ((pre @ [c]) @ post) (length (pre @ [c]))
      = unescape_loop fs (unescape_body fs (pre @ c # post) (length pre)) (length pre)"
    by simp
  also have "\<dots> = unescape_loop fs (pre @ unescape_cons fs c post) (length pre)"
    by (simp only: unescape_body_cons)
  also have "\<dots> = foldr (unescape_cons fs) pre (unescape_cons fs c post)"
    by (rule snoc.IH)
  finally show ?case by simp
qed

lemma foldr_unescape_short:
  "length post \<le> 2 \<Longrightarrow> foldr (unescape_cons fs) post [] = post"
proof -
  assume "length post \<le> 2"
  then consider "post = []" | a where "post = [a]" | a b where "post = [a, b]"
    by (cases post; cases "tl post"; cases "tl (tl post)") auto
  then show ?thesis by cases (simp_all add: unescape_cons_def)
qed

lemma unescape_loop_all:
  "unescape_loop fs name (nat (int (length name) - 2)) = foldr (unescape_cons fs) name []"
proof -
  let ?n = "length name - 2"
  have n: "nat (int (length name) - 2) = ?n" by simp
  have len: "length (take ?n name) = ?n" by simp
  have "unescape_loop fs (take ?n name @ drop ?n name) (length (take ?n name))
      = foldr (unescape_cons fs) (take ?n name) (drop ?n name)"
    by (rule unescape_loop_foldr)
  then have a: "unescape_loop fs name ?n = foldr (unescape_cons fs) (take ?n name) (drop ?n name)"
    unfolding len append_take_drop_id .
  have "foldr (unescape_cons fs) (drop ?n name) [] = drop ?n name"
    by (rule foldr_unescape_short) simp
  then have "foldr (unescape_cons fs) (take ?n name @ drop ?n name) []
      = foldr (unescape_cons fs) (take ?n name) (drop ?n name)"
    unfolding foldr_append by simp
  then have b: "foldr (unescape_cons fs) name [] = foldr (unescape_cons fs) (take ?n name) (drop ?n name)"
    unfolding append_take_drop_id .
  show ?thesis unfolding n a b ..
qed

lemma hexval_hexdigit: "k < 16 \<Longrightarrow> hexval (hexdigit k) = k \<and> islchex (hexdigit k) \<and> hexdigit k \<noteq> CHR ''%''"
proof -
  assume "k < 16"
  then have "k \<in> set [0..<16]" by simp
  moreover have "\<forall>k \<in> set [0..<16]. hexval (hexdigit k) = k \<and> islchex (hexdigit k) \<and> hexdigit k \<noteq> CHR ''%''"
    by (simp add: upt_rec hexval_def hexdigit_def islchex_def)
  ultimately show ?thesis by blast
qed

lemma decode_sprintf:
  "char_of (hexval (hexdigit ((of_char c :: nat) div 16)) * 16 + hexval (hexdigit ((of_char c :: nat) mod 16))) = c"
proof -
  have "(of_char c :: nat) < 256" by simp
  then have d: "(of_char c :: nat) div 16 < 16" by (simp add: less_mult_imp_div_less)
  have m: "(of_char c :: nat) mod 16 < 16" by simp
  show ?thesis
    using hexval_hexdigit [OF d] hexval_hexdigit [OF m] by simp
qed

lemma unescape_cons_plain: "\<not> escape_at fs (c # r) \<Longrightarrow> unescape_cons fs c r = c # r"
  by (simp add: unescape_cons_def)

lemma unescape_sprintf:
  "\<not> islocalfscompatible c fs \<Longrightarrow>
   foldr (unescape_cons fs) (sprintf_pct02x c) r = c # r"
proof -
  assume f: "\<not> islocalfscompatible c fs"
  let ?h1 = "hexdigit ((of_char c :: nat) div 16)"
  let ?h2 = "hexdigit ((of_char c :: nat) mod 16)"
  have "(of_char c :: nat) < 256" by simp
  then have d: "(of_char c :: nat) div 16 < 16" by (simp add: less_mult_imp_div_less)
  have m: "(of_char c :: nat) mod 16 < 16" by simp
  have a2: "unescape_cons fs ?h2 r = ?h2 # r"
    using hexval_hexdigit [OF m] by (cases r; cases "tl r") (auto simp: unescape_cons_def)
  have a1: "unescape_cons fs ?h1 (?h2 # r) = ?h1 # ?h2 # r"
    using hexval_hexdigit [OF d] by (cases r) (auto simp: unescape_cons_def)
  have a0: "unescape_cons fs (CHR ''%'') (?h1 # ?h2 # r) = c # r"
    using hexval_hexdigit [OF d] hexval_hexdigit [OF m] f decode_sprintf [of c]
    by (simp add: unescape_cons_def)
  show ?thesis by (simp add: sprintf_pct02x_def a2 a1 a0)
qed

lemma unescape_escape_pass:
  "\<not> has_escape fs name \<Longrightarrow>
   foldr (unescape_cons fs) (escape_pass sz fs k name) [] = name"
proof (induction name arbitrary: k)
  case Nil
  show ?case by simp
next
  case (Cons c cs)
  then have ne: "\<not> escape_at fs (c # cs)" and rest: "\<not> has_escape fs cs" by simp_all
  have IH: "foldr (unescape_cons fs) (escape_pass sz fs k' cs) [] = cs" for k'
    using Cons.IH rest by blast
  show ?case
  proof (cases "0 < k \<or> \<not> (sz c = 1 \<and> \<not> islocalfscompatible c fs)")
    case True
    then show ?thesis using IH ne by (auto simp: unescape_cons_plain)
  next
    case False
    then have f: "\<not> islocalfscompatible c fs" and e: "escape_pass sz fs k (c # cs) = sprintf_pct02x c @ escape_pass sz fs 0 cs"
      by auto
    show ?thesis
      unfolding e foldr_append o_apply IH by (rule unescape_sprintf [OF f])
  qed
qed

lemma unescape_unchanged:
  "\<not> has_escape fs name \<Longrightarrow> foldr (unescape_cons fs) name [] = name"
  by (induction name) (auto simp: unescape_cons_plain)

lemma decode_2e: "(char_of (hexval (CHR ''2'') * 16 + hexval (CHR ''e'')) :: char) = CHR ''.''"
  by code_simp
lemma unescape_2e: "foldr (unescape_cons fs) ''%2e'' [] \<in> {''.'', ''%2e''}"
  by (simp add: unescape_cons_def islchex_def decode_2e)
lemma unescape_2e2e: "foldr (unescape_cons fs) ''%2e%2e'' [] \<in> {''..'', ''%2e%2e''}"
proof -
  have a: "foldr (unescape_cons fs) ''%2e'' [] = unescape_cons fs (CHR ''%'') ''2e''"
    by (simp add: unescape_cons_def)
  have b: "unescape_cons fs (CHR ''%'') ''2e'' = ''.'' \<or> unescape_cons fs (CHR ''%'') ''2e'' = ''%2e''"
    by (simp add: unescape_cons_def islchex_def decode_2e)
  have c: "unescape_cons fs (CHR ''%'') (''2e'' @ r) = (if islocalfscompatible (CHR ''.'') fs then ''%2e'' @ r else ''.'' @ r)" for r
    by (simp add: unescape_cons_def islchex_def decode_2e)
  have d: "unescape_cons fs (CHR ''2'') r = CHR ''2'' # r" "unescape_cons fs (CHR ''e'') r = CHR ''e'' # r" for r
    by (cases r; cases "tl r"; simp add: unescape_cons_def)+
  have "foldr (unescape_cons fs) ''%2e%2e'' [] = unescape_cons fs (CHR ''%'') (''2e'' @ unescape_cons fs (CHR ''%'') (''2e'' @ []))"
    by (simp add: d)
  then show ?thesis unfolding c by (simp split: if_splits)
qed
lemma forbidden_is_ascii: "\<not> islocalfscompatible c fs \<Longrightarrow> (of_char c :: nat) < 128"
  by (cases fs) (auto simp: strchr_def fat32_restricted_def ntfs_restricted_def)

lemma continuation_compatible: "continuation_byte c \<Longrightarrow> islocalfscompatible c fs"
  using forbidden_is_ascii [of c fs] by (auto simp: continuation_byte_def)

lemma escape_pass_each:
  "\<not> forbidden_in_span sz fs k name \<Longrightarrow> escape_pass sz fs k name = escape_each fs name"
  by (induction name arbitrary: k) (auto simp: escape_each_def)

lemma escape_pass_shorter:
  "length (escape_pass sz fs k name) \<le> length (escape_each fs name) \<and>
   (forbidden_in_span sz fs k name \<longrightarrow>
      length (escape_pass sz fs k name) < length (escape_each fs name))"
proof (induction name arbitrary: k)
  case Nil
  show ?case by (simp add: escape_each_def)
next
  case (Cons c cs)
  have each: "length (escape_each fs (c # cs)) =
      (if islocalfscompatible c fs then 1 else 3) + length (escape_each fs cs)"
    by (simp add: escape_each_def sprintf_pct02x_def)
  show ?case
  proof (cases "0 < k")
    case True
    with Cons [of "k - 1"] show ?thesis unfolding each by auto
  next
    case False
    then have k: "k = 0" by simp
    show ?thesis
    proof (cases "sz c = 1 \<and> \<not> islocalfscompatible c fs")
      case True
      with Cons [of 0] k show ?thesis unfolding each by (auto simp: sprintf_pct02x_def)
    next
      case False
      with Cons [of "sz c - 1"] k show ?thesis unfolding each by auto
    qed
  qed
qed

lemma span_of_continuations:
  "list_all continuation_byte conts \<Longrightarrow>
   forbidden_in_span sz fs (length conts) (conts @ rest) = forbidden_in_span sz fs 0 rest"
  by (induction conts) (auto simp: continuation_compatible)

lemma wellformed_no_span:
  assumes "ascii_single sz" and "wellformed_utf8 sz name"
  shows "\<not> forbidden_in_span sz fs 0 name"
  using assms(2)
proof (induction rule: wellformed_utf8.induct)
  case wellformed_Nil
  show ?case by simp
next
  case (wellformed_Seq conts c rest)
  have lead: "\<not> (sz c \<noteq> 1 \<and> \<not> islocalfscompatible c fs)"
    using assms(1) forbidden_is_ascii [of c fs] by (auto simp: ascii_single_def)
  have "forbidden_in_span sz fs (sz c - 1) (conts @ rest) = forbidden_in_span sz fs 0 rest"
    using span_of_continuations [OF wellformed_Seq(2), of sz fs rest] wellformed_Seq(1) by simp
  with lead wellformed_Seq.IH show ?case by simp
qed

lemma escapefsincompatible_pass:
  assumes "seqsize_ok sz" and "name \<noteq> ''.''" and "name \<noteq> ''..''"
  shows "escapefsincompatible sz pf name dstPath =
    Some (escape_pass sz (getlocalfstype pf (Some (getValidPath pf dstPath))) 0 name)"
proof -
  have "escape_loop sz fs ([] @ name) (length ([] :: string) + 0) = Some ([] @ escape_pass sz fs 0 name)"
    for fs
    by (rule escape_loop_refines [OF assms(1)])
  then show ?thesis using assms(2,3) by (simp add: escapefsincompatible_def Let_def)
qed

lemma utf8SequenceSize_ascii: "ascii_single utf8SequenceSize"
  by (simp add: ascii_single_def utf8SequenceSize_def Let_def)

subsection \<open>Normalization\<close>

lemma join_nul_segments: "join_nul (nul_segments name) = name"
proof (induction name)
  case Nil show ?case by simp
next
  case (Cons c cs)
  then show ?case
    by (cases "nul_segments cs"; cases "tl (nul_segments cs)") (auto split: list.splits)
qed

lemma nul_segments_nonempty: "nul_segments name \<noteq> []"
  by (cases name) (auto split: list.splits)

lemma nul_segments_free: "s \<in> set (nul_segments name) \<Longrightarrow> CHR 0x00 \<notin> set s"
  by (induction name arbitrary: s) (auto split: list.splits if_splits)

lemma c_str_segment: "CHR 0x00 \<notin> set s \<Longrightarrow> c_str (s @ CHR 0x00 # r) = s"
  by (induction s) (auto simp: c_str_def)

lemma c_str_free: "CHR 0x00 \<notin> set s \<Longrightarrow> c_str s = s"
  by (induction s) (auto simp: c_str_def)

lemma normalize_loop_done: "length name \<le> i \<Longrightarrow> normalize_loop nfc name i r = Some r"
  by (subst normalize_loop.simps) simp

lemma normalize_loop_segments:
  "segs \<noteq> [] \<Longrightarrow> (\<forall>s \<in> set segs. CHR 0x00 \<notin> set s) \<Longrightarrow>
   normalize_loop nfc (pre @ join_nul segs) (length pre) result =
     map_option (\<lambda>ns. result @ join_nul ns) (all_segments nfc segs)"
proof (induction segs arbitrary: pre result rule: join_nul.induct)
  case 1
  then show ?case by simp
next
  case (2 s)
  then have free: "CHR 0x00 \<notin> set s" by simp
  show ?case
  proof (cases s)
    case Nil
    then show ?thesis by (subst normalize_loop.simps) (simp add: segment_nfc_def)
  next
    case (Cons c cs)
    then have nz: "(pre @ s) ! length pre \<noteq> CHR 0x00" using free by (auto simp: nth_append)
    have cs: "c_str (drop (length pre) (pre @ s)) = s" using free by (simp add: c_str_free)
    show ?thesis
      using nz cs Cons
      by (subst normalize_loop.simps)
        (auto simp: normalize_loop_done segment_nfc_def split: option.splits)
  qed
next
  case (3 s t ss)
  then have free: "CHR 0x00 \<notin> set s" and rest: "\<forall>s \<in> set (t # ss). CHR 0x00 \<notin> set s" by simp_all
  let ?name = "pre @ s @ CHR 0x00 # join_nul (t # ss)"
  have IH: "normalize_loop nfc ((pre @ s @ [CHR 0x00]) @ join_nul (t # ss)) (length (pre @ s @ [CHR 0x00])) r
      = map_option (\<lambda>ns. r @ join_nul ns) (all_segments nfc (t # ss))" for r
    using "3.IH" [of "pre @ s @ [CHR 0x00]" r] rest by simp
  have atnul: "normalize_loop nfc ?name (length pre + length s) r
      = map_option (\<lambda>ns. (r @ [CHR 0x00]) @ join_nul ns) (all_segments nfc (t # ss))" for r
  proof -
    have "?name ! (length pre + length s) = CHR 0x00"
      by (simp add: nth_append)
    then have "normalize_loop nfc ?name (length pre + length s) r
        = normalize_loop nfc ?name (length pre + length s + 1) (r @ [CHR 0x00])"
      by (subst normalize_loop.simps) simp
    also have "\<dots> = map_option (\<lambda>ns. (r @ [CHR 0x00]) @ join_nul ns) (all_segments nfc (t # ss))"
      using IH [of "r @ [CHR 0x00]"] by simp
    finally show ?thesis .
  qed
  define R where "R = all_segments nfc (t # ss)"
  have Rne: "ns \<noteq> []" if "R = Some ns" for ns
    using that unfolding R_def by (auto split: option.splits)
  have lhs: "all_segments nfc (s # t # ss) =
      (case segment_nfc nfc s of None \<Rightarrow> None | Some n \<Rightarrow> map_option ((#) n) R)"
    unfolding R_def by (simp split: option.splits)
  have atnul': "normalize_loop nfc ?name (length pre + length s) r
      = map_option (\<lambda>ns. (r @ [CHR 0x00]) @ join_nul ns) R" for r
    unfolding R_def by (rule atnul)
  have glue: "(r @ n) @ [CHR 0x00] @ join_nul ns = r @ join_nul (n # ns)" if "R = Some ns" for r n ns
    using Rne [OF that] by (cases ns) simp_all
  show ?case
  proof (cases s)
    case Nil
    have seg: "segment_nfc nfc s = Some []" using Nil by (simp add: segment_nfc_def)
    show ?thesis
    proof (cases R)
      case None
      with atnul' [of result] Nil show ?thesis unfolding lhs seg by simp
    next
      case (Some ns)
      with atnul' [of result] Nil glue [OF Some, of result "[]"] show ?thesis
        unfolding lhs seg by simp
    qed
  next
    case (Cons c cs)
    then have nz: "?name ! length pre \<noteq> CHR 0x00" using free by (auto simp: nth_append)
    have cstr: "c_str (drop (length pre) ?name) = s" using free by (simp add: c_str_segment)
    have step: "normalize_loop nfc ?name (length pre) result =
        (case nfc s of None \<Rightarrow> None
         | Some n \<Rightarrow> normalize_loop nfc ?name (length pre + length s) (result @ c_str n))"
      using nz cstr by (subst normalize_loop.simps) (simp split: option.splits)
    have seg: "segment_nfc nfc s = map_option c_str (nfc s)"
      using Cons by (simp add: segment_nfc_def)
    show ?thesis
    proof (cases "nfc s")
      case None
      with step show ?thesis unfolding lhs seg by simp
    next
      case (Some n)
      note n = Some
      show ?thesis
      proof (cases R)
        case None
        with step n atnul' [of "result @ c_str n"] show ?thesis unfolding lhs seg by simp
      next
        case (Some ns)
        with step n atnul' [of "result @ c_str n"] glue [OF Some, of result "c_str n"]
        show ?thesis unfolding lhs seg by simp
      qed
    qed
  qed
qed

lemma all_segments_total:
  "(\<forall>s \<in> set segs. s \<noteq> [] \<longrightarrow> nfc s \<noteq> None) \<Longrightarrow>
   \<exists>ns. all_segments nfc segs = Some ns \<and> length ns = length segs \<and>
        (\<forall>k < length ns. segment_nfc nfc (segs ! k) = Some (ns ! k))"
proof (induction segs)
  case Nil
  show ?case by simp
next
  case (Cons s segs)
  then obtain ns where ns: "all_segments nfc segs = Some ns" "length ns = length segs"
    "\<forall>k < length ns. segment_nfc nfc (segs ! k) = Some (ns ! k)"
    by auto
  from Cons.prems obtain n where n: "segment_nfc nfc s = Some n"
    by (cases "s = []") (auto simp: segment_nfc_def)
  have "\<forall>k < length (n # ns). segment_nfc nfc ((s # segs) ! k) = Some ((n # ns) ! k)"
    using ns(3) n by (auto simp: nth_Cons split: nat.splits)
  with ns n show ?case by simp
qed

subsection \<open>The filesystem ID index\<close>

lemma fsid_index_ok_empty: "fsid_index_ok empty_fsid_heap"
  by (simp add: fsid_index_ok_def empty_fsid_heap_def)

lemma fsid_entry_node:
  "fsid_index_ok h \<Longrightarrow> fsidnode h k = Some a \<Longrightarrow>
   \<exists>m. localnodes h a = Some m \<and> fsid_it m = Some k"
  unfolding fsid_index_ok_def by blast

lemma fsid_node_entry:
  "fsid_index_ok h \<Longrightarrow> localnodes h a = Some m \<Longrightarrow> fsid_it m = Some k \<Longrightarrow>
   fsidnode h k = Some a \<and> fsid m = k \<and> sync_set m"
  unfolding fsid_index_ok_def by blast

lemma fsid_index_ok_new:
  assumes ok: "fsid_index_ok h"
  shows "fsid_index_ok (new_localnode h a f)"
proof (cases "localnodes h a")
  case (Some n)
  then show ?thesis using ok by (simp add: new_localnode_def)
next
  case None
  define nodes' where "nodes' = (localnodes h)(a := Some \<lparr>sync_set = True, fsid = f, fsid_it = None\<rparr>)"
  have eq: "new_localnode h a f = \<lparr>fsidnode = fsidnode h, localnodes = nodes'\<rparr>"
    using None by (simp add: new_localnode_def nodes'_def)
  have 1: "\<exists>m. nodes' b = Some m \<and> fsid_it m = Some k" if "fsidnode h k = Some b" for k b
  proof -
    from fsid_entry_node [OF ok that] obtain m where m: "localnodes h b = Some m" "fsid_it m = Some k"
      by blast
    with None have "b \<noteq> a" by auto
    with m show ?thesis by (simp add: nodes'_def)
  qed
  have 2: "fsidnode h k = Some b \<and> fsid m = k \<and> sync_set m"
    if "nodes' b = Some m" "fsid_it m = Some k" for b m k
  proof -
    from that have "b \<noteq> a" by (auto simp: nodes'_def)
    with that have "localnodes h b = Some m" by (simp add: nodes'_def)
    from fsid_node_entry [OF ok this that(2)] show ?thesis .
  qed
  show ?thesis unfolding eq fsid_index_ok_def fsid_heap.select_convs using 1 2 by blast
qed

lemma erased_entry:
  assumes ok: "fsid_index_ok h" and n: "localnodes h this = Some n"
    and e: "(case fsid_it n of Some k \<Rightarrow> (fsidnode h)(k := None) | None \<Rightarrow> fsidnode h) k = Some a"
  shows "a \<noteq> this \<and> fsidnode h k = Some a"
proof (cases "fsid_it n")
  case None
  with e have e': "fsidnode h k = Some a" by simp
  with fsid_entry_node [OF ok e'] None n show ?thesis by auto
next
  case (Some k0)
  with e have e': "fsidnode h k = Some a" and ne: "k \<noteq> k0"
    by (auto split: if_splits)
  with fsid_entry_node [OF ok e'] Some n show ?thesis by auto
qed

lemma kept_entry:
  assumes ok: "fsid_index_ok h" and n: "localnodes h this = Some n"
    and m: "localnodes h a = Some m" "fsid_it m = Some k" and ne: "a \<noteq> this"
  shows "(case fsid_it n of Some k \<Rightarrow> (fsidnode h)(k := None) | None \<Rightarrow> fsidnode h) k = Some a"
proof -
  from fsid_node_entry [OF ok m] have e: "fsidnode h k = Some a" by simp
  show ?thesis
  proof (cases "fsid_it n")
    case None
    with e show ?thesis by simp
  next
    case (Some k0)
    from fsid_node_entry [OF ok n Some] have "fsidnode h k0 = Some this" by simp
    with e ne have "k \<noteq> k0" by auto
    with e Some show ?thesis by simp
  qed
qed

lemma fsid_index_ok_destroy:
  assumes ok: "fsid_index_ok h"
  shows "fsid_index_ok (destroy_localnode h this)"
proof (cases "localnodes h this")
  case None
  then show ?thesis using ok by (simp add: destroy_localnode_def)
next
  case (Some n)
  show ?thesis
  proof (cases "sync_set n")
    case False
    define nodes' where "nodes' = (localnodes h)(this := None)"
    have eq: "destroy_localnode h this = \<lparr>fsidnode = fsidnode h, localnodes = nodes'\<rparr>"
      using Some False by (simp add: destroy_localnode_def nodes'_def)
    have unset: "fsid_it n = None"
      using fsid_node_entry [OF ok Some] False by (cases "fsid_it n") auto
    have 1: "\<exists>m. nodes' a = Some m \<and> fsid_it m = Some k" if "fsidnode h k = Some a" for k a
    proof -
      from fsid_entry_node [OF ok that] obtain m where m: "localnodes h a = Some m" "fsid_it m = Some k"
        by blast
      with Some unset have "a \<noteq> this" by auto
      with m show ?thesis by (simp add: nodes'_def)
    qed
    have 2: "fsidnode h k = Some a \<and> fsid m = k \<and> sync_set m"
      if "nodes' a = Some m" "fsid_it m = Some k" for a m k
    proof -
      from that(1) have "localnodes h a = Some m" by (auto simp: nodes'_def split: if_splits)
      from fsid_node_entry [OF ok this that(2)] show ?thesis .
    qed
    show ?thesis unfolding eq fsid_index_ok_def fsid_heap.select_convs using 1 2 by blast
  next
    case True
    define idx where "idx = (case fsid_it n of Some k \<Rightarrow> (fsidnode h)(k := None) | None \<Rightarrow> fsidnode h)"
    define nodes' where "nodes' = (localnodes h)(this := None)"
    have eq: "destroy_localnode h this = \<lparr>fsidnode = idx, localnodes = nodes'\<rparr>"
      using Some True by (simp add: destroy_localnode_def idx_def nodes'_def)
    have 1: "\<exists>m. nodes' a = Some m \<and> fsid_it m = Some k" if "idx k = Some a" for k a
    proof -
      from erased_entry [OF ok Some that [unfolded idx_def]]
      have "a \<noteq> this" and "fsidnode h k = Some a" by simp_all
      with fsid_entry_node [OF ok this(2)] show ?thesis by (simp add: nodes'_def)
    qed
    have 2: "idx k = Some a \<and> fsid m = k \<and> sync_set m"
      if "nodes' a = Some m" "fsid_it m = Some k" for a m k
    proof -
      from that(1) have ne: "a \<noteq> this" and m: "localnodes h a = Some m"
        by (auto simp: nodes'_def split: if_splits)
      from kept_entry [OF ok Some m that(2) ne] fsid_node_entry [OF ok m that(2)]
      show ?thesis by (simp add: idx_def)
    qed
    show ?thesis unfolding eq fsid_index_ok_def fsid_heap.select_convs using 1 2 by blast
  qed
qed

lemma setfsid_unfold:
  assumes "localnodes h this = Some n" and "sync_set n"
    and "\<not> (fsid_it n \<noteq> None \<and> f = fsid n)"
  shows "setfsid h this f =
    (let idx = (case fsid_it n of Some k \<Rightarrow> (fsidnode h)(k := None) | None \<Rightarrow> fsidnode h);
         nodes' = (localnodes h)(this := Some (n\<lparr>fsid := f, fsid_it := Some f\<rparr>))
     in \<lparr>fsidnode = idx(f := Some this),
         localnodes = (case idx f of
                         None \<Rightarrow> nodes'
                       | Some prev \<Rightarrow>
                           (case nodes' prev of
                              None \<Rightarrow> nodes'
                            | Some pn \<Rightarrow> nodes'(prev := Some (pn\<lparr>fsid_it := None\<rparr>))))\<rparr>)"
  using assms by (auto simp: setfsid_def Let_def split: option.splits)

lemma fsid_index_ok_setfsid:
  assumes ok: "fsid_index_ok h"
  shows "fsid_index_ok (setfsid h this f)"
proof (cases "localnodes h this")
  case None
  then show ?thesis using ok by (simp add: setfsid_def)
next
  case (Some n)
  from ok have A: "\<exists>m. localnodes h a = Some m \<and> fsid_it m = Some k" if "fsidnode h k = Some a" for k a
    using that unfolding fsid_index_ok_def by blast
  from ok have B: "fsidnode h k = Some a \<and> fsid m = k \<and> sync_set m"
    if "localnodes h a = Some m" "fsid_it m = Some k" for a m k
    using that unfolding fsid_index_ok_def by blast
  show ?thesis
  proof (cases "\<not> sync_set n \<or> (fsid_it n \<noteq> None \<and> f = fsid n)")
    case True
    then show ?thesis using ok Some by (auto simp: setfsid_def)
  next
    case False
    then have sync: "sync_set n" and go: "\<not> (fsid_it n \<noteq> None \<and> f = fsid n)" by auto
    define idx where "idx = (case fsid_it n of Some k \<Rightarrow> (fsidnode h)(k := None) | None \<Rightarrow> fsidnode h)"
    define n' where "n' = n\<lparr>fsid := f, fsid_it := Some f\<rparr>"
    define nodes' where "nodes' = (localnodes h)(this := Some n')"
    have n': "fsid n' = f" "fsid_it n' = Some f" "sync_set n'"
      using sync by (simp_all add: n'_def)
    have idx_other: "a \<noteq> this \<and> fsidnode h k = Some a" if "idx k = Some a" for k a
    proof (cases "fsid_it n")
      case None
      with that have e: "fsidnode h k = Some a" by (simp add: idx_def)
      with A [OF e] None Some show ?thesis by auto
    next
      case (Some k0)
      with that have e: "fsidnode h k = Some a" and ne: "k \<noteq> k0"
        by (auto simp: idx_def split: if_splits)
      with A [OF e] Some \<open>localnodes h this = Some n\<close> show ?thesis by auto
    qed
    have idx_rev: "idx k = Some a" if "localnodes h a = Some m" "fsid_it m = Some k" "a \<noteq> this" for a m k
    proof -
      from B [OF that(1,2)] have e: "fsidnode h k = Some a" by simp
      show ?thesis
      proof (cases "fsid_it n")
        case None
        with e show ?thesis by (simp add: idx_def)
      next
        case (Some k0)
        from B [OF \<open>localnodes h this = Some n\<close> Some] have "fsidnode h k0 = Some this" by simp
        with e that(3) have "k \<noteq> k0" by auto
        with e Some show ?thesis by (simp add: idx_def)
      qed
    qed
    have eq: "setfsid h this f =
      \<lparr>fsidnode = idx(f := Some this),
       localnodes = (case idx f of
                       None \<Rightarrow> nodes'
                     | Some prev \<Rightarrow>
                         (case nodes' prev of
                            None \<Rightarrow> nodes'
                          | Some pn \<Rightarrow> nodes'(prev := Some (pn\<lparr>fsid_it := None\<rparr>))))\<rparr>"
      unfolding idx_def nodes'_def n'_def by (rule setfsid_unfold [OF Some sync go, unfolded Let_def])
    show ?thesis
    proof (cases "idx f")
      case None
      then have eq': "setfsid h this f = \<lparr>fsidnode = idx(f := Some this), localnodes = nodes'\<rparr>"
        using eq by simp
      have 1: "\<exists>m. nodes' a = Some m \<and> fsid_it m = Some k" if "(idx(f := Some this)) k = Some a" for k a
      proof (cases "k = f")
        case True
        with that n' show ?thesis by (simp add: nodes'_def)
      next
        case False
        with that have "idx k = Some a" by simp
        from idx_other [OF this] A show ?thesis by (auto simp: nodes'_def)
      qed
      have 2: "(idx(f := Some this)) k = Some a \<and> fsid m = k \<and> sync_set m"
        if "nodes' a = Some m" "fsid_it m = Some k" for a m k
      proof (cases "a = this")
        case True
        with that n' show ?thesis by (auto simp: nodes'_def)
      next
        case False
        with that have m: "localnodes h a = Some m" by (simp add: nodes'_def)
        from idx_rev [OF m that(2) False] None have "k \<noteq> f" by auto
        with idx_rev [OF m that(2) False] B [OF m that(2)] show ?thesis by simp
      qed
      show ?thesis unfolding eq' fsid_index_ok_def fsid_heap.select_convs using 1 2 by blast
    next
      case (Some prev)
      from idx_other [OF Some] have pt: "prev \<noteq> this" and pe: "fsidnode h f = Some prev" by simp_all
      from A [OF pe] obtain pn where pn: "localnodes h prev = Some pn" "fsid_it pn = Some f" by blast
      define nodes'' where "nodes'' = nodes'(prev := Some (pn\<lparr>fsid_it := None\<rparr>))"
      have eq': "setfsid h this f = \<lparr>fsidnode = idx(f := Some this), localnodes = nodes''\<rparr>"
        using eq Some pn pt by (simp add: nodes'_def nodes''_def)
      have 1: "\<exists>m. nodes'' a = Some m \<and> fsid_it m = Some k" if "(idx(f := Some this)) k = Some a" for k a
      proof (cases "k = f")
        case True
        with that n' pt show ?thesis by (simp add: nodes'_def nodes''_def)
      next
        case False
        with that have e: "idx k = Some a" by simp
        from idx_other [OF e] have at: "a \<noteq> this" and e': "fsidnode h k = Some a" by simp_all
        from A [OF e'] obtain m where m: "localnodes h a = Some m" "fsid_it m = Some k" by blast
        with pn False have "a \<noteq> prev" by auto
        with at m show ?thesis by (simp add: nodes'_def nodes''_def)
      qed
      have 2: "(idx(f := Some this)) k = Some a \<and> fsid m = k \<and> sync_set m"
        if "nodes'' a = Some m" "fsid_it m = Some k" for a m k
      proof (cases "a = this")
        case True
        with that n' pt show ?thesis by (auto simp: nodes'_def nodes''_def)
      next
        case False
        note at = False
        show ?thesis
        proof (cases "a = prev")
          case True
          with that show ?thesis by (auto simp: nodes''_def)
        next
          case False
          with that at have m: "localnodes h a = Some m" by (simp add: nodes'_def nodes''_def)
          from idx_rev [OF m that(2) at] Some False have "k \<noteq> f" by auto
          with idx_rev [OF m that(2) at] B [OF m that(2)] show ?thesis by simp
        qed
      qed
      show ?thesis unfolding eq' fsid_index_ok_def fsid_heap.select_convs using 1 2 by blast
    qed
  qed
qed

lemma fsid_index_ok_run: "fsid_index_ok (fsid_run ops)"
proof -
  have "fsid_index_ok h \<Longrightarrow> fsid_index_ok (foldl fsid_step h ops)" for h
  proof (induction ops arbitrary: h)
    case Nil
    then show ?case by simp
  next
    case (Cons x xs)
    have "fsid_index_ok (fsid_step h x)"
      using Cons.prems
      by (cases x) (simp_all add: fsid_index_ok_new fsid_index_ok_setfsid fsid_index_ok_destroy)
    then show ?case using Cons.IH by simp
  qed
  then show ?thesis unfolding fsid_run_def using fsid_index_ok_empty by blast
qed

subsection \<open>The cross-reference of sync nodes and cloud nodes\<close>

lemma xref_pair:
  "xref_ok h \<Longrightarrow> syncnodes h l = Some ln \<Longrightarrow> node ln = Some c \<Longrightarrow>
   \<exists>cn. cloudnodes h c = Some cn \<and> localnode' cn = Some l"
  unfolding xref_ok_def by blast

lemma xref_back:
  "xref_ok h \<Longrightarrow> cloudnodes h c = Some cn \<Longrightarrow> localnode' cn = Some l \<Longrightarrow>
   \<exists>ln. syncnodes h l = Some ln \<and> node ln = Some c"
  unfolding xref_ok_def by blast

lemma xref_okI:
  assumes "\<And>l ln c. syncnodes h l = Some ln \<Longrightarrow> node ln = Some c \<Longrightarrow>
      \<exists>cn. cloudnodes h c = Some cn \<and> localnode' cn = Some l"
    and "\<And>c cn l. cloudnodes h c = Some cn \<Longrightarrow> localnode' cn = Some l \<Longrightarrow>
      \<exists>ln. syncnodes h l = Some ln \<and> node ln = Some c"
  shows "xref_ok h"
  unfolding xref_ok_def using assms by blast

lemma xref_ok_deleted:
  assumes ok: "xref_ok h" and l: "syncnodes h l = Some ln"
  shows "xref_ok (h\<lparr>syncnodes := (syncnodes h)(l := Some (ln\<lparr>deleted := b\<rparr>))\<rparr>)"
proof (rule xref_okI)
  fix l' ln' c
  assume a: "syncnodes (h\<lparr>syncnodes := (syncnodes h)(l := Some (ln\<lparr>deleted := b\<rparr>))\<rparr>) l' = Some ln'"
    and n: "node ln' = Some c"
  then have "\<exists>ln0. syncnodes h l' = Some ln0 \<and> node ln0 = Some c"
    using l by (cases "l' = l") auto
  then show "\<exists>cn. cloudnodes (h\<lparr>syncnodes := (syncnodes h)(l := Some (ln\<lparr>deleted := b\<rparr>))\<rparr>) c = Some cn \<and> localnode' cn = Some l'"
    using xref_pair [OF ok] by auto
next
  fix c cn l'
  assume "cloudnodes (h\<lparr>syncnodes := (syncnodes h)(l := Some (ln\<lparr>deleted := b\<rparr>))\<rparr>) c = Some cn"
    and b: "localnode' cn = Some l'"
  then have "cloudnodes h c = Some cn" by simp
  from xref_back [OF ok this b] obtain ln0 where "syncnodes h l' = Some ln0" "node ln0 = Some c"
    by blast
  then show "\<exists>ln'. syncnodes (h\<lparr>syncnodes := (syncnodes h)(l := Some (ln\<lparr>deleted := b\<rparr>))\<rparr>) l' = Some ln' \<and> node ln' = Some c"
    using l by (cases "l' = l") auto
qed

lemma reset_node_unfold:
  assumes ok: "xref_ok h" and l: "syncnodes h l = Some ln" and c: "node ln = Some c"
  shows "\<exists>cn. cloudnodes h c = Some cn \<and> localnode' cn = Some l \<and>
    reset_node h l = \<lparr>syncnodes = (syncnodes h)(l := Some (ln\<lparr>node := None\<rparr>)),
                      cloudnodes = (cloudnodes h)(c := Some (cn\<lparr>localnode' := None\<rparr>))\<rparr>"
  using xref_pair [OF ok l c] l c by (auto simp: reset_node_def)

lemma reset_localnode_unfold:
  assumes ok: "xref_ok h" and c: "cloudnodes h c = Some cn" and l: "localnode' cn = Some l"
  shows "\<exists>ln. syncnodes h l = Some ln \<and> node ln = Some c \<and>
    reset_localnode h c = \<lparr>syncnodes = (syncnodes h)(l := Some (ln\<lparr>node := None\<rparr>)),
                           cloudnodes = (cloudnodes h)(c := Some (cn\<lparr>localnode' := None\<rparr>))\<rparr>"
  using xref_back [OF ok c l] l c by (auto simp: reset_localnode_def)

lemma xref_ok_unpair:
  assumes ok: "xref_ok h" and l: "syncnodes h l = Some ln" and c: "cloudnodes h c = Some cn"
    and lc: "node ln = Some c" and cl: "localnode' cn = Some l"
  shows "xref_ok \<lparr>syncnodes = (syncnodes h)(l := Some (ln\<lparr>node := None\<rparr>)),
                  cloudnodes = (cloudnodes h)(c := Some (cn\<lparr>localnode' := None\<rparr>))\<rparr>"
proof (rule xref_okI; simp only: xref_heap.select_convs)
  fix l' ln' c'
  assume a: "((syncnodes h)(l := Some (ln\<lparr>node := None\<rparr>))) l' = Some ln'" and n: "node ln' = Some c'"
  then have ne: "l' \<noteq> l" by (auto split: if_splits)
  with a have a': "syncnodes h l' = Some ln'" by simp
  from xref_pair [OF ok a' n] obtain cn' where cn': "cloudnodes h c' = Some cn'" "localnode' cn' = Some l'"
    by blast
  with c cl ne have "c' \<noteq> c" by auto
  with cn' show "\<exists>cn0. ((cloudnodes h)(c := Some (cn\<lparr>localnode' := None\<rparr>))) c' = Some cn0 \<and> localnode' cn0 = Some l'"
    by simp
next
  fix c' cn' l'
  assume a: "((cloudnodes h)(c := Some (cn\<lparr>localnode' := None\<rparr>))) c' = Some cn'" and n: "localnode' cn' = Some l'"
  then have ne: "c' \<noteq> c" by (auto split: if_splits)
  with a have a': "cloudnodes h c' = Some cn'" by simp
  from xref_back [OF ok a' n] obtain ln' where ln': "syncnodes h l' = Some ln'" "node ln' = Some c'"
    by blast
  with l lc ne have "l' \<noteq> l" by auto
  with ln' show "\<exists>ln0. ((syncnodes h)(l := Some (ln\<lparr>node := None\<rparr>))) l' = Some ln0 \<and> node ln0 = Some c'"
    by simp
qed

lemma xref_ok_reset_node: "xref_ok h \<Longrightarrow> xref_ok (reset_node h l)"
proof -
  assume ok: "xref_ok h"
  show ?thesis
  proof (cases "syncnodes h l")
    case None
    then show ?thesis using ok by (simp add: reset_node_def)
  next
    case (Some ln)
    show ?thesis
    proof (cases "node ln")
      case None
      with Some show ?thesis using ok by (simp add: reset_node_def)
    next
      case c: (Some c)
      from reset_node_unfold [OF ok Some c] obtain cn where
        cn: "cloudnodes h c = Some cn" "localnode' cn = Some l" and
        eq: "reset_node h l = \<lparr>syncnodes = (syncnodes h)(l := Some (ln\<lparr>node := None\<rparr>)),
                      cloudnodes = (cloudnodes h)(c := Some (cn\<lparr>localnode' := None\<rparr>))\<rparr>"
        by blast
      show ?thesis unfolding eq by (rule xref_ok_unpair [OF ok Some cn(1) c cn(2)])
    qed
  qed
qed

lemma xref_ok_reset_localnode: "xref_ok h \<Longrightarrow> xref_ok (reset_localnode h c)"
proof -
  assume ok: "xref_ok h"
  show ?thesis
  proof (cases "cloudnodes h c")
    case None
    then show ?thesis using ok by (simp add: reset_localnode_def)
  next
    case (Some cn)
    show ?thesis
    proof (cases "localnode' cn")
      case None
      with Some show ?thesis using ok by (simp add: reset_localnode_def)
    next
      case l: (Some l)
      from reset_localnode_unfold [OF ok Some l] obtain ln where
        ln: "syncnodes h l = Some ln" "node ln = Some c" and
        eq: "reset_localnode h c = \<lparr>syncnodes = (syncnodes h)(l := Some (ln\<lparr>node := None\<rparr>)),
                           cloudnodes = (cloudnodes h)(c := Some (cn\<lparr>localnode' := None\<rparr>))\<rparr>"
        by blast
      show ?thesis unfolding eq by (rule xref_ok_unpair [OF ok ln(1) Some ln(2) l])
    qed
  qed
qed

lemma xref_ok_crossref:
  assumes ok: "xref_ok h" and l: "syncnodes h l = Some ln" and c: "cloudnodes h c = Some cn"
    and fl: "node ln = None" and fc: "localnode' cn = None"
  shows "xref_ok (crossref h c l)"
proof -
  have eq: "crossref h c l = \<lparr>syncnodes = (syncnodes h)(l := Some (ln\<lparr>node := Some c\<rparr>)),
           cloudnodes = (cloudnodes h)(c := Some (cn\<lparr>localnode' := Some l\<rparr>))\<rparr>"
    using l c by (simp add: crossref_def)
  show ?thesis unfolding eq
  proof (rule xref_okI; simp only: xref_heap.select_convs)
    fix l' ln' c'
    assume a: "((syncnodes h)(l := Some (ln\<lparr>node := Some c\<rparr>))) l' = Some ln'" and n: "node ln' = Some c'"
    show "\<exists>cn0. ((cloudnodes h)(c := Some (cn\<lparr>localnode' := Some l\<rparr>))) c' = Some cn0 \<and> localnode' cn0 = Some l'"
    proof (cases "l' = l")
      case True
      with a n show ?thesis by auto
    next
      case False
      with a have a': "syncnodes h l' = Some ln'" by simp
      from xref_pair [OF ok a' n] obtain cn' where cn': "cloudnodes h c' = Some cn'" "localnode' cn' = Some l'"
        by blast
      with c fc have "c' \<noteq> c" by auto
      with cn' show ?thesis by simp
    qed
  next
    fix c' cn' l'
    assume a: "((cloudnodes h)(c := Some (cn\<lparr>localnode' := Some l\<rparr>))) c' = Some cn'" and n: "localnode' cn' = Some l'"
    show "\<exists>ln0. ((syncnodes h)(l := Some (ln\<lparr>node := Some c\<rparr>))) l' = Some ln0 \<and> node ln0 = Some c'"
    proof (cases "c' = c")
      case True
      with a n show ?thesis by auto
    next
      case False
      with a have a': "cloudnodes h c' = Some cn'" by simp
      from xref_back [OF ok a' n] obtain ln' where ln': "syncnodes h l' = Some ln'" "node ln' = Some c'"
        by blast
      with l fl have "l' \<noteq> l" by auto
      with ln' show ?thesis by simp
    qed
  qed
qed


lemma reset_node_this:
  "syncnodes h l = Some ln \<Longrightarrow>
   \<exists>ln'. syncnodes (reset_node h l) l = Some ln' \<and> node ln' = None \<and> deleted ln' = deleted ln"
  by (auto simp: reset_node_def split: option.splits)

lemma reset_node_cloud_live:
  "cloudnodes h c = Some cn \<Longrightarrow> \<exists>cn'. cloudnodes (reset_node h l) c = Some cn'"
  by (auto simp: reset_node_def split: option.splits)

lemma reset_localnode_this:
  "cloudnodes h c = Some cn \<Longrightarrow>
   \<exists>cn'. cloudnodes (reset_localnode h c) c = Some cn' \<and> localnode' cn' = None"
  by (auto simp: reset_localnode_def split: option.splits)

lemma reset_localnode_sync_free:
  "syncnodes h l = Some ln \<Longrightarrow> node ln = None \<Longrightarrow>
   \<exists>ln'. syncnodes (reset_localnode h c) l = Some ln' \<and> node ln' = None \<and> deleted ln' = deleted ln"
  by (auto simp: reset_localnode_def split: option.splits)

lemma xref_ok_setnode:
  assumes ok: "xref_ok h"
  shows "xref_ok (setnode h this cnode)"
proof (cases "syncnodes h this")
  case None
  then show ?thesis using ok by (simp add: setnode_def)
next
  case (Some ln)
  define h1 where "h1 = h\<lparr>syncnodes := (syncnodes h)(this := Some (ln\<lparr>deleted := False\<rparr>))\<rparr>"
  define h2 where "h2 = reset_node h1 this"
  have ok1: "xref_ok h1" unfolding h1_def by (rule xref_ok_deleted [OF ok Some])
  have ok2: "xref_ok h2" unfolding h2_def by (rule xref_ok_reset_node [OF ok1])
  have live1: "syncnodes h1 this = Some (ln\<lparr>deleted := False\<rparr>)" by (simp add: h1_def)
  from reset_node_this [OF live1] obtain ln2 where ln2: "syncnodes h2 this = Some ln2" "node ln2 = None"
    unfolding h2_def by blast
  show ?thesis
  proof (cases cnode)
    case None
    then show ?thesis using ok2 Some by (simp add: setnode_def Let_def h1_def h2_def)
  next
    case c: (Some c)
    define h3 where "h3 = reset_localnode h2 c"
    have ok3: "xref_ok h3" unfolding h3_def by (rule xref_ok_reset_localnode [OF ok2])
    have eq: "setnode h this cnode = crossref h3 c this"
      using Some c by (simp add: setnode_def Let_def h1_def h2_def h3_def)
    from reset_localnode_sync_free [OF ln2] obtain ln3 where
      ln3: "syncnodes h3 this = Some ln3" "node ln3 = None"
      unfolding h3_def by blast
    show ?thesis
    proof (cases "cloudnodes h2 c")
      case None
      then have "cloudnodes h3 c = None" by (simp add: h3_def reset_localnode_def)
      then have "crossref h3 c this = h3" by (simp add: crossref_def split: option.splits)
      with ok3 eq show ?thesis by simp
    next
      case cn: (Some cn2)
      from reset_localnode_this [OF cn] obtain cn3 where
        cn3: "cloudnodes h3 c = Some cn3" "localnode' cn3 = None"
        unfolding h3_def by blast
      show ?thesis unfolding eq by (rule xref_ok_crossref [OF ok3 ln3(1) cn3(1) ln3(2) cn3(2)])
    qed
  qed
qed

lemma setnode_pairs:
  "syncnodes h this = Some ln \<Longrightarrow> cloudnodes h c = Some cn \<Longrightarrow>
   \<exists>ln' cn'. syncnodes (setnode h this (Some c)) this = Some ln' \<and> node ln' = Some c \<and>
     \<not> deleted ln' \<and>
     cloudnodes (setnode h this (Some c)) c = Some cn' \<and> localnode' cn' = Some this"
  by (auto simp: setnode_def Let_def reset_node_def reset_localnode_def crossref_def
      split: option.splits)

lemma setnode_clears_cloud:
  assumes ok: "xref_ok h" and l: "syncnodes h this = Some ln" and c: "cloudnodes h c = Some cn"
    and c0: "node ln = Some c0" and ne: "c0 \<noteq> c"
  shows "\<exists>cn0. cloudnodes (setnode h this (Some c)) c0 = Some cn0 \<and> localnode' cn0 = None"
proof -
  from xref_pair [OF ok l c0] obtain cn0 where cn0: "cloudnodes h c0 = Some cn0" "localnode' cn0 = Some this"
    by blast
  show ?thesis
    using l c c0 ne cn0
    by (auto simp: setnode_def Let_def reset_node_def reset_localnode_def crossref_def
        split: option.splits)
qed

lemma setnode_clears_sync:
  assumes ok: "xref_ok h" and l: "syncnodes h this = Some ln" and c: "cloudnodes h c = Some cn"
    and l0: "localnode' cn = Some l0" and ne: "l0 \<noteq> this"
  shows "\<exists>ln0. syncnodes (setnode h this (Some c)) l0 = Some ln0 \<and> node ln0 = None"
proof -
  from xref_back [OF ok c l0] obtain ln0 where ln0: "syncnodes h l0 = Some ln0" "node ln0 = Some c"
    by blast
  have other: "node ln \<noteq> Some c"
    using xref_pair [OF ok l, of c] c l0 ne by auto
  show ?thesis
    using l c l0 ne ln0 other
    by (auto simp: setnode_def Let_def reset_node_def reset_localnode_def crossref_def
        split: option.splits)
qed

lemma xref_ok_remove_free:
  assumes ok: "xref_ok h" and free: "\<forall>cn. cloudnodes h c = Some cn \<longrightarrow> localnode' cn = None"
  shows "xref_ok (h\<lparr>cloudnodes := (cloudnodes h)(c := None)\<rparr>)"
proof (rule xref_okI)
  fix l ln c'
  assume a: "syncnodes (h\<lparr>cloudnodes := (cloudnodes h)(c := None)\<rparr>) l = Some ln" and n: "node ln = Some c'"
  then have a': "syncnodes h l = Some ln" by simp
  from xref_pair [OF ok a' n] obtain cn' where cn': "cloudnodes h c' = Some cn'" "localnode' cn' = Some l"
    by blast
  with free have "c' \<noteq> c" by auto
  with cn' show "\<exists>cn. cloudnodes (h\<lparr>cloudnodes := (cloudnodes h)(c := None)\<rparr>) c' = Some cn \<and> localnode' cn = Some l"
    by simp
next
  fix c' cn' l
  assume a: "cloudnodes (h\<lparr>cloudnodes := (cloudnodes h)(c := None)\<rparr>) c' = Some cn'" and n: "localnode' cn' = Some l"
  then have "cloudnodes h c' = Some cn'" by (auto split: if_splits)
  from xref_back [OF ok this n]
  show "\<exists>ln. syncnodes (h\<lparr>cloudnodes := (cloudnodes h)(c := None)\<rparr>) l = Some ln \<and> node ln = Some c'"
    by simp
qed

lemma xref_ok_destroy_node:
  assumes ok: "xref_ok h"
  shows "xref_ok (destroy_node h c)"
proof (cases "cloudnodes h c")
  case None
  then show ?thesis using ok by (simp add: destroy_node_def)
next
  case (Some cn)
  show ?thesis
  proof (cases "localnode' cn")
    case None
    have "xref_ok (h\<lparr>cloudnodes := (cloudnodes h)(c := None)\<rparr>)"
      by (rule xref_ok_remove_free [OF ok]) (simp add: Some None)
    then show ?thesis using Some None by (simp add: destroy_node_def)
  next
    case l: (Some l)
    from xref_back [OF ok Some l] obtain ln where ln: "syncnodes h l = Some ln" "node ln = Some c"
      by blast
    define h1 where "h1 = h\<lparr>syncnodes := (syncnodes h)(l := Some (ln\<lparr>deleted := True\<rparr>))\<rparr>"
    have ok1: "xref_ok h1" unfolding h1_def by (rule xref_ok_deleted [OF ok ln(1)])
    have c1: "cloudnodes h1 c = Some cn" by (simp add: h1_def Some)
    have ok2: "xref_ok (reset_localnode h1 c)" by (rule xref_ok_reset_localnode [OF ok1])
    from reset_localnode_this [OF c1]
    have free: "\<forall>cn'. cloudnodes (reset_localnode h1 c) c = Some cn' \<longrightarrow> localnode' cn' = None"
      by auto
    have eq: "destroy_node h c =
        (reset_localnode h1 c)\<lparr>cloudnodes := (cloudnodes (reset_localnode h1 c))(c := None)\<rparr>"
      using Some l ln by (simp add: destroy_node_def Let_def h1_def)
    show ?thesis unfolding eq by (rule xref_ok_remove_free [OF ok2 free])
  qed
qed

lemma destroy_node_clears:
  assumes ok: "xref_ok h" and c: "cloudnodes h c = Some cn" and l: "localnode' cn = Some l"
  shows "cloudnodes (destroy_node h c) c = None \<and>
    (\<exists>ln'. syncnodes (destroy_node h c) l = Some ln' \<and> node ln' = None \<and> deleted ln')"
proof -
  from xref_back [OF ok c l] obtain ln where ln: "syncnodes h l = Some ln" "node ln = Some c"
    by blast
  show ?thesis
    using c l ln by (auto simp: destroy_node_def Let_def reset_localnode_def split: option.splits)
qed

subsection \<open>The cache record\<close>

lemma sint_folder_marker: "(sint (x :: 64 word) < 0 \<and> - 1 \<le> sint x) = (x = - 1)"
proof
  assume "sint x < 0 \<and> - 1 \<le> sint x"
  then have "sint x = - 1" by simp
  then have "word_of_int (sint x) = (word_of_int (- 1) :: 64 word)" by simp
  then show "x = - 1" by simp
next
  assume "x = - 1"
  then show "sint x < 0 \<and> - 1 \<le> sint x" by simp
qed

lemma cacheable_i64:
  "cacheable_ok C \<Longrightarrow> unserializei64 C (serializei64 C v @ r) = Some (v, r)"
  "cacheable_ok C \<Longrightarrow> length (serializei64 C v) = 8"
  by (simp_all add: cacheable_ok_def)

lemma cacheable_handle:
  "cacheable_ok C \<Longrightarrow> unserializehandle C (serializehandle C v @ r) = Some (v, r)"
  "cacheable_ok C \<Longrightarrow> length (serializehandle C v) = 8"
  by (simp_all add: cacheable_ok_def)

lemma cacheable_u32:
  "cacheable_ok C \<Longrightarrow> unserializeu32 C (serializeu32 C v @ r) = Some (v, r)"
  "cacheable_ok C \<Longrightarrow> length (serializeu32 C v) = 4"
  by (simp_all add: cacheable_ok_def)

lemma cacheable_nodehandle:
  "cacheable_ok C \<Longrightarrow> unserializenodehandle C (serializenodehandle C v @ r)
     = Some (take_bit (8 * NODEHANDLE C) v, r)"
  "cacheable_ok C \<Longrightarrow> length (serializenodehandle C v) = NODEHANDLE C"
  by (simp_all add: cacheable_ok_def)

lemma cacheable_string:
  "cacheable_ok C \<Longrightarrow> length s < 65536 \<Longrightarrow>
     unserializestring C (serializestring C s @ r) = Some (s, r)"
  "cacheable_ok C \<Longrightarrow> 2 \<le> length (serializestring C s)"
  by (simp_all add: cacheable_ok_def)

lemma cacheable_binary:
  "cacheable_ok C \<Longrightarrow> unserializebinary C (length s) (serializebinary C s @ r) = Some (s, r)"
  by (simp add: cacheable_ok_def)

lemma cacheable_compressed64:
  "cacheable_ok C \<Longrightarrow> unserializecompressed64 C (serializecompressed64 C v @ r) = Some (v, r)"
  by (simp add: cacheable_ok_def)

lemma cacheable_byte:
  "cacheable_ok C \<Longrightarrow> unserializebyte C (serializebyte C v @ r) = Some (v, r)"
  "cacheable_ok C \<Longrightarrow> serializebyte C v \<noteq> []"
  by (simp_all add: cacheable_ok_def)

lemma cacheable_flags:
  "cacheable_ok C \<Longrightarrow> \<exists>flags. unserializeexpansionflags C 1 (serializeexpansionflags C b @ r)
     = Some (flags, r) \<and> (flags ! 0 \<noteq> 0) = b"
  "cacheable_ok C \<Longrightarrow> serializeexpansionflags C b \<noteq> []"
  by (simp_all add: cacheable_ok_def)

lemma cacheable_pstr:
  "cacheable_ok C \<Longrightarrow> unserializecstr C False (serializepstr C None @ r) = Some ([], r)"
  "cacheable_ok C \<Longrightarrow> length s < 65536 \<Longrightarrow>
     unserializecstr C False (serializepstr C (Some s) @ r) = Some (s, r)"
  by (simp_all add: cacheable_ok_def)

lemma unserialize_tail_restores:
  assumes ok: "cacheable_ok C"
    and short: "case p of None \<Rightarrow> True | Some s \<Rightarrow> s \<noteq> [] \<and> length s < 65536"
  shows "unserialize_tail C cl ntype nsize fsid' parent_dbid h localname crc mtime
      (serializebyte C (if b then 1 else 0) @ serializeexpansionflags C True @ serializepstr C p)
    = Some \<lparr>l_type = ntype, l_size = nsize, l_fsid = fsid', l_fsid_it = None,
        l_parent = None, l_parent_dbid = parent_dbid,
        l_node = (if nodebyhandle cl h then Some h else None),
        l_localname = localname, l_slocalname = p, l_slocalname_in_db = True,
        l_name = toName cl localname, l_crc = crc, l_mtime = mtime, l_isvalid = True,
        l_mSyncable = b, l_created = False, l_reported = False, l_checked = (h \<noteq> UNDEF),
        l_needsRescan = False\<rparr>"
proof -
  let ?r1 = "serializeexpansionflags C True @ serializepstr C p"
  note byte = cacheable_byte(1) [OF ok] and byte_ne = cacheable_byte(2) [OF ok]
    and flags_ne = cacheable_flags(2) [OF ok, of True]
  from cacheable_flags(1) [OF ok, of True "serializepstr C p"] obtain flags where flags:
    "unserializeexpansionflags C 1 (serializeexpansionflags C True @ serializepstr C p)
       = Some (flags, serializepstr C p)" "flags ! 0 \<noteq> 0"
    by auto
  have pnone: "unserializecstr C False (serializepstr C None) = Some ([], [])"
    using cacheable_pstr(1) [OF ok, of "[]"] by simp
  have psome: "unserializecstr C False (serializepstr C (Some s)) = Some (s, [])"
    if "length s < 65536" for s
    using cacheable_pstr(2) [OF ok that, of "[]"] by simp
  have cstr: "\<exists>shortname. unserializecstr C False (serializepstr C p) = Some (shortname, []) \<and>
      (if shortname = [] then None else Some shortname) = p"
  proof (cases p)
    case None
    with pnone show ?thesis by simp
  next
    case (Some s)
    with short psome [of s] show ?thesis by simp
  qed
  then obtain shortname where sn: "unserializecstr C False (serializepstr C p) = Some (shortname, [])"
    "(if shortname = [] then None else Some shortname) = p"
    by blast
  have sync: "(((if b then 1 else 0) :: 8 word) = 1) = b" by simp
  show ?thesis
    unfolding unserialize_tail_def
    by (simp add: byte byte_ne flags_ne flags sn sync del: One_nat_def)
qed

lemma unserialize_serialize_restored:
  assumes ok: "cacheable_ok C" and valid: "valid_localnode C cl l"
  shows "unserialize C cl (serialize C l) = Some (restored C cl l)"
proof -
  note i64 = cacheable_i64(1) [OF ok] and i64_len = cacheable_i64(2) [OF ok]
    and hnd = cacheable_handle(1) [OF ok] and hnd_len = cacheable_handle(2) [OF ok]
    and u32 = cacheable_u32(1) [OF ok] and u32_len = cacheable_u32(2) [OF ok]
    and nh = cacheable_nodehandle(1) [OF ok] and nh_len = cacheable_nodehandle(2) [OF ok]
    and str = cacheable_string(1) [OF ok] and str_len = cacheable_string(2) [OF ok]
    and bin = cacheable_binary [OF ok] and c64 = cacheable_compressed64 [OF ok]
  from valid have ty: "l_type l = FILENODE \<or> l_type l = FOLDERNODE"
    and name_len: "length (l_localname l) < 65536"
    and short: "case l_slocalname l of None \<Rightarrow> True | Some s \<Rightarrow> s \<noteq> [] \<and> length s < 65536"
    unfolding valid_localnode_def by simp_all
  define h0 where "h0 = (case l_node l of Some nodehandle \<Rightarrow> nodehandle | None \<Rightarrow> UNDEF)"
  define h where "h = take_bit (8 * NODEHANDLE C) h0"
  have node: "(if nodebyhandle cl h then Some h else None) = l_node l"
    using valid unfolding valid_localnode_def h_def h0_def by (cases "l_node l") auto
  note tail = unserialize_tail_restores [OF ok short]
  have long: "\<not> length (serialize C l) < 8 + 8 + 4 + NODEHANDLE C + 2"
    using str_len [of "l_localname l"]
    by (simp add: serialize_def i64_len hnd_len u32_len nh_len)
  from ty show ?thesis
  proof
    assume f: "l_type l = FILENODE"
    with valid have sz: "l_size l \<noteq> - 1" and crc: "length (l_crc l) = 16"
      unfolding valid_localnode_def by simp_all
    have ser: "serialize C l =
        serializei64 C (l_size l) @ serializehandle C (l_fsid l) @
        serializeu32 C (case l_parent l of Some dbid \<Rightarrow> dbid | None \<Rightarrow> 0) @
        serializenodehandle C h0 @ serializestring C (l_localname l) @
        serializebinary C (l_crc l) @ serializecompressed64 C (l_mtime l) @
        serializebyte C (if l_mSyncable l then 1 else 0) @
        serializeexpansionflags C True @ serializepstr C (l_slocalname l)"
      using f by (simp add: serialize_def h0_def)
    have "unserialize C cl (serialize C l) =
        unserialize_tail C cl FILENODE (l_size l) (l_fsid l)
          (case l_parent l of Some dbid \<Rightarrow> dbid | None \<Rightarrow> 0) h (l_localname l) (l_crc l)
          (l_mtime l)
          (serializebyte C (if l_mSyncable l then 1 else 0) @
           serializeexpansionflags C True @ serializepstr C (l_slocalname l))"
      unfolding unserialize_def using long bin [of "l_crc l"] crc sz
      by (simp add: ser [symmetric])
        (simp add: ser i64 hnd u32 nh str [OF name_len] c64 h_def Let_def sint_folder_marker)
    then show ?thesis
      unfolding tail using f node by (simp add: restored_def h_def h0_def)
  next
    assume f: "l_type l = FOLDERNODE"
    have ser: "serialize C l =
        serializei64 C (- 1) @ serializehandle C (l_fsid l) @
        serializeu32 C (case l_parent l of Some dbid \<Rightarrow> dbid | None \<Rightarrow> 0) @
        serializenodehandle C h0 @ serializestring C (l_localname l) @
        serializebyte C (if l_mSyncable l then 1 else 0) @
        serializeexpansionflags C True @ serializepstr C (l_slocalname l)"
      using f by (simp add: serialize_def h0_def)
    have "unserialize C cl (serialize C l) =
        unserialize_tail C cl FOLDERNODE 0 (l_fsid l)
          (case l_parent l of Some dbid \<Rightarrow> dbid | None \<Rightarrow> 0) h (l_localname l)
          (replicate 16 (CHR 0x00)) 0
          (serializebyte C (if l_mSyncable l then 1 else 0) @
           serializeexpansionflags C True @ serializepstr C (l_slocalname l))"
      unfolding unserialize_def using long
      by (simp add: ser [symmetric])
        (simp add: ser i64 hnd u32 nh str [OF name_len] h_def Let_def nodetype_of_def
          sint_folder_marker)
    then show ?thesis
      unfolding tail using f node by (simp add: restored_def h_def h0_def)
  qed
qed

lemma unserialize_short: "length d < 8 + 8 + 4 + NODEHANDLE C + 2 \<Longrightarrow> unserialize C cl d = None"
  by (simp add: unserialize_def)

lemma le_bytes_length: "length (le_bytes n v) = n"
  by (induction n arbitrary: v) simp_all

lemma le_value_le_bytes: "le_value (le_bytes n v) = v mod 256 ^ n"
proof (induction n arbitrary: v)
  case 0
  show ?case by simp
next
  case (Suc n)
  have "v mod (256 * 256 ^ n) = 256 * (v div 256 mod 256 ^ n) + v mod 256"
    by (rule mod_mult2_eq)
  with Suc show ?case by simp
qed

lemma get_le_put_le:
  assumes "LENGTH('a::len) = 8 * n"
  shows "get_le n (put_le n (w :: 'a word) @ r) = Some (w, r)"
proof -
  have "(256 :: nat) ^ n = 2 ^ LENGTH('a)"
    using assms by (simp add: power_mult)
  moreover have "unat w < 2 ^ LENGTH('a)" by (rule unsigned_less)
  ultimately have "unat w mod 256 ^ n = unat w" by simp
  then show ?thesis
    by (simp add: get_le_def put_le_def le_bytes_length le_value_le_bytes)
qed

lemma get_le_put_le_nodehandle:
  "get_le 6 (put_le 6 (w :: 64 word) @ r) = Some (take_bit 48 w, r)"
proof -
  have "(256 :: nat) ^ 6 = 2 ^ 48" by simp
  then have "unat w mod 256 ^ 6 = take_bit 48 (unat w)"
    by (simp only: take_bit_eq_mod)
  also have "\<dots> = unat (take_bit 48 w)"
    by (simp add: unsigned_take_bit_eq)
  finally have "(word_of_nat (unat w mod 256 ^ 6) :: 64 word) = take_bit 48 w"
    by simp
  then show ?thesis
    by (simp add: get_le_def put_le_def le_bytes_length le_value_le_bytes)
qed

lemma get_str_put_str:
  assumes "length s < 65536"
  shows "get_str (put_str s @ r) = Some (s, r)"
proof -
  have m: "length s mod 65536 = length s" using assms by simp
  have v: "le_value (le_bytes 2 (length s)) = length s"
    using assms by (simp add: le_value_le_bytes)
  have p: "put_str s @ r = le_bytes 2 (length s) @ s @ r"
    by (simp add: put_str_def m)
  have t: "take 2 (le_bytes 2 (length s) @ s @ r) = le_bytes 2 (length s)"
    and d: "drop 2 (le_bytes 2 (length s) @ s @ r) = s @ r"
    by (simp_all add: le_bytes_length)
  show ?thesis
    unfolding p get_str_def t d v by (simp add: le_bytes_length)
qed

lemma get_flags_put:
  "get_flags 1 (((if b then CHR 0x01 else CHR 0x00) # replicate 7 (CHR 0x00)) @ r)
     = Some (map (\<lambda>c. word_of_nat (of_char c)) ((if b then CHR 0x01 else CHR 0x00) # replicate 7 (CHR 0x00)), r)"
  by (simp add: get_flags_def eval_nat_numeral)

lemma raw_cacheable_ok: "cacheable_ok raw_cacheable"
proof -
  have w8: "get_le 8 (put_le 8 (v :: 64 word) @ r) = Some (v, r)" for v r
    by (rule get_le_put_le) simp
  have w4: "get_le 4 (put_le 4 (v :: 32 word) @ r) = Some (v, r)" for v r
    by (rule get_le_put_le) simp
  have w1: "get_le 1 (put_le 1 (v :: 8 word) @ r) = Some (v, r)" for v r
    by (rule get_le_put_le) simp
  have len: "length (put_le n (v :: 'a::len word)) = n" for n v
    by (simp add: put_le_def le_bytes_length)
  have len1: "put_le 1 (v :: 8 word) \<noteq> []" for v
    using len [of 1 v] by auto
  have str_len: "2 \<le> length (put_str s)" for s
    by (simp add: put_str_def le_bytes_length)
  have empty: "get_str (put_str [] @ r) = Some ([], r)" for r
    by (rule get_str_put_str) simp
  have flags: "\<exists>flags. get_flags 1 (((if b then CHR 0x01 else CHR 0x00) # replicate 7 (CHR 0x00)) @ r)
      = Some (flags, r) \<and> (flags ! 0 \<noteq> (0 :: 8 word)) = b" for b r
    unfolding get_flags_put by simp
  show ?thesis
    unfolding cacheable_ok_def raw_cacheable_def cacheable.simps
    using flags
    by (simp add: w8 w4 w1 len len1 str_len empty get_str_put_str get_le_put_le_nodehandle
        del: One_nat_def)
qed

section \<open>The claims\<close>

text \<open>
  C1, as the code has it. escapefsincompatible maps the exact names "." and ".." in full
  to "%2e" and "%2e%2e". For every other name and every destination path, it replaces
  each byte that the detected filesystem family forbids with a percent sign and the two
  lower-case hexadecimal digits of that byte and leaves all other bytes unchanged exactly
  when no forbidden byte is hidden by the sequence sizes, that is, none has a sequence
  size other than one or lies among the bytes that a multi-byte lead byte announces. That
  is so for every well-formed name whose bytes below 128 are single-byte characters. The
  sequence size is any function that is never zero and is one on the hexadecimal digits.
\<close>

theorem escapefsincompatible_escapes:
  assumes "seqsize_ok sz"
  shows "escapefsincompatible sz pf ''.'' dstPath = Some ''%2e'' \<and>
    escapefsincompatible sz pf ''..'' dstPath = Some ''%2e%2e'' \<and>
    (name \<noteq> ''.'' \<and> name \<noteq> ''..'' \<longrightarrow>
       (escapefsincompatible sz pf name dstPath =
          Some (escape_each (getlocalfstype pf (Some (getValidPath pf dstPath))) name)) =
       (\<not> forbidden_in_span sz (getlocalfstype pf (Some (getValidPath pf dstPath))) 0 name)) \<and>
    (name \<noteq> ''.'' \<and> name \<noteq> ''..'' \<and> ascii_single sz \<and> wellformed_utf8 sz name \<longrightarrow>
       escapefsincompatible sz pf name dstPath =
         Some (escape_each (getlocalfstype pf (Some (getValidPath pf dstPath))) name))"
proof (intro conjI impI)
  let ?fs = "getlocalfstype pf (Some (getValidPath pf dstPath))"
  show "escapefsincompatible sz pf ''.'' dstPath = Some ''%2e''"
    by (simp add: escapefsincompatible_def Let_def)
  show "escapefsincompatible sz pf ''..'' dstPath = Some ''%2e%2e''"
    by (simp add: escapefsincompatible_def Let_def)
  {
    assume n: "name \<noteq> ''.'' \<and> name \<noteq> ''..''"
    then have pass: "escapefsincompatible sz pf name dstPath = Some (escape_pass sz ?fs 0 name)"
      using escapefsincompatible_pass [OF assms] by blast
    show "(escapefsincompatible sz pf name dstPath = Some (escape_each ?fs name)) =
        (\<not> forbidden_in_span sz ?fs 0 name)"
    proof
      assume "escapefsincompatible sz pf name dstPath = Some (escape_each ?fs name)"
      with pass have "length (escape_pass sz ?fs 0 name) = length (escape_each ?fs name)"
        by simp
      with escape_pass_shorter [of sz ?fs 0 name] show "\<not> forbidden_in_span sz ?fs 0 name"
        by auto
    next
      assume "\<not> forbidden_in_span sz ?fs 0 name"
      with pass show "escapefsincompatible sz pf name dstPath = Some (escape_each ?fs name)"
        by (simp add: escape_pass_each)
    qed
  }
  assume w: "name \<noteq> ''.'' \<and> name \<noteq> ''..'' \<and> ascii_single sz \<and> wellformed_utf8 sz name"
  then have "\<not> forbidden_in_span sz ?fs 0 name"
    using wellformed_no_span by blast
  moreover have "escapefsincompatible sz pf name dstPath = Some (escape_pass sz ?fs 0 name)"
    using w escapefsincompatible_pass [OF assms] by blast
  ultimately show "escapefsincompatible sz pf name dstPath = Some (escape_each ?fs name)"
    by (simp add: escape_pass_each)
qed

text \<open>The witness is the name of the bytes C3 A9 (the letter e with an acute accent), a
  colon and a question mark, on an NTFS volume.\<close>

theorem escapefsincompatible_escapes_witness:
  "seqsize_ok utf8SequenceSize \<and> ascii_single utf8SequenceSize \<and>
   wellformed_utf8 utf8SequenceSize [CHR 0xC3, CHR 0xA9, CHR '':'', CHR ''?''] \<and>
   \<not> forbidden_in_span utf8SequenceSize FS_NTFS 0 [CHR 0xC3, CHR 0xA9, CHR '':'', CHR ''?''] \<and>
   escapefsincompatible utf8SequenceSize (posix_volume FS_NTFS)
       [CHR 0xC3, CHR 0xA9, CHR '':'', CHR ''?''] (Some ''/mnt/w/docs'')
     = Some ([CHR 0xC3, CHR 0xA9] @ ''%3a%3f'') \<and>
   escapefsincompatible utf8SequenceSize (posix_volume FS_NTFS) ''..'' (Some ''/mnt/w/docs'')
     = Some ''%2e%2e'' \<and>
   escapefsincompatible utf8SequenceSize (posix_volume FS_NTFS) ''.'' (Some ''/mnt/w/docs'')
     = Some ''%2e''"
proof -
  let ?name = "[CHR 0xC3, CHR 0xA9, CHR '':'', CHR ''?'']"
  have ok: "seqsize_ok utf8SequenceSize" by (rule utf8SequenceSize_ok)
  have asc: "ascii_single utf8SequenceSize" by (rule utf8SequenceSize_ascii)
  have fs: "getlocalfstype (posix_volume FS_NTFS) (Some (getValidPath (posix_volume FS_NTFS) (Some ''/mnt/w/docs''))) = FS_NTFS"
    by (simp add: getlocalfstype_def getValidPath_def posix_volume_def Let_def)
  have s2: "utf8SequenceSize (CHR 0xC3) = 2" and s1: "utf8SequenceSize (CHR '':'') = 1"
    "utf8SequenceSize (CHR ''?'') = 1"
    by (simp_all add: utf8SequenceSize_def)
  have cont: "list_all continuation_byte [CHR 0xA9]"
    by (simp add: continuation_byte_def)
  have w0: "wellformed_utf8 utf8SequenceSize []" by (rule wellformed_Nil)
  have w1: "wellformed_utf8 utf8SequenceSize (CHR ''?'' # [] @ [])"
    by (rule wellformed_Seq) (simp_all add: s1 w0)
  have w2: "wellformed_utf8 utf8SequenceSize (CHR '':'' # [] @ [CHR ''?''])"
    using w1 by (intro wellformed_Seq) (simp_all add: s1)
  have w3: "wellformed_utf8 utf8SequenceSize (CHR 0xC3 # [CHR 0xA9] @ [CHR '':'', CHR ''?''])"
    using w2 cont by (intro wellformed_Seq) (simp_all add: s2)
  then have wf: "wellformed_utf8 utf8SequenceSize ?name" by simp
  have nospan: "\<not> forbidden_in_span utf8SequenceSize FS_NTFS 0 ?name"
    by (simp add: s2 s1 strchr_def ntfs_restricted_def)
  have each: "escape_each FS_NTFS ?name = [CHR 0xC3, CHR 0xA9] @ ''%3a%3f''"
    by (simp add: escape_each_def sprintf_pct02x_def hexdigit_def strchr_def ntfs_restricted_def)
  have n: "?name \<noteq> ''.'' \<and> ?name \<noteq> ''..''" by simp
  note inst = escapefsincompatible_escapes [OF ok, of "posix_volume FS_NTFS" "Some ''/mnt/w/docs''" ?name]
  from inst n asc wf
  have "escapefsincompatible utf8SequenceSize (posix_volume FS_NTFS) ?name (Some ''/mnt/w/docs'')
      = Some (escape_each FS_NTFS ?name)"
    unfolding fs by blast
  then have r: "escapefsincompatible utf8SequenceSize (posix_volume FS_NTFS) ?name (Some ''/mnt/w/docs'')
      = Some ([CHR 0xC3, CHR 0xA9] @ ''%3a%3f'')"
    unfolding each .
  from inst have d1: "escapefsincompatible utf8SequenceSize (posix_volume FS_NTFS) ''.'' (Some ''/mnt/w/docs'') = Some ''%2e''"
    and d2: "escapefsincompatible utf8SequenceSize (posix_volume FS_NTFS) ''..'' (Some ''/mnt/w/docs'') = Some ''%2e%2e''"
    by blast+
  from ok asc wf nospan r d1 d2 show ?thesis by blast
qed

text \<open>
  The claim as it is written fails for a name in which a forbidden byte follows a lead byte
  that announces a two-byte sequence: in the name of the bytes C3 2F 78 the slash, which
  NTFS forbids, is jumped over and the name comes back unchanged.
\<close>

theorem escapefsincompatible_counterexample:
  "\<not> islocalfscompatible (CHR 0x2F) FS_NTFS \<and> utf8SequenceSize (CHR 0x2F) = 1 \<and>
   escapefsincompatible utf8SequenceSize (posix_volume FS_NTFS)
       [CHR 0xC3, CHR 0x2F, CHR ''x''] (Some ''/mnt/w/docs'')
     = Some [CHR 0xC3, CHR 0x2F, CHR ''x''] \<and>
   escape_each FS_NTFS [CHR 0xC3, CHR 0x2F, CHR ''x''] = [CHR 0xC3] @ ''%2fx'' \<and>
   [CHR 0xC3, CHR 0x2F, CHR ''x''] \<noteq> [CHR 0xC3] @ ''%2fx''"
proof -
  have fs: "getlocalfstype (posix_volume FS_NTFS) (Some (getValidPath (posix_volume FS_NTFS) (Some ''/mnt/w/docs''))) = FS_NTFS"
    by (simp add: getlocalfstype_def getValidPath_def posix_volume_def Let_def)
  have s2: "utf8SequenceSize (CHR 0xC3) = 2" and s1: "utf8SequenceSize (CHR 0x2F) = 1"
    "utf8SequenceSize (CHR ''x'') = 1"
    by (simp_all add: utf8SequenceSize_def)
  have forb: "\<not> islocalfscompatible (CHR 0x2F) FS_NTFS"
    by (simp add: strchr_def ntfs_restricted_def)
  have loop: "escape_loop utf8SequenceSize FS_NTFS [CHR 0xC3, CHR 0x2F, CHR ''x''] 0
      = Some [CHR 0xC3, CHR 0x2F, CHR ''x'']"
    by (simp add: escape_loop.simps s2 s1 strchr_def ntfs_restricted_def)
  have e: "escapefsincompatible utf8SequenceSize (posix_volume FS_NTFS)
       [CHR 0xC3, CHR 0x2F, CHR ''x''] (Some ''/mnt/w/docs'') = Some [CHR 0xC3, CHR 0x2F, CHR ''x'']"
    by (simp add: escapefsincompatible_def Let_def fs loop)
  have each: "escape_each FS_NTFS [CHR 0xC3, CHR 0x2F, CHR ''x''] = [CHR 0xC3] @ ''%2fx''"
    by (simp add: escape_each_def sprintf_pct02x_def hexdigit_def strchr_def ntfs_restricted_def)
  from forb s1 e each show ?thesis by simp
qed

text \<open>
  C2, as the code has it. unescapefsincompatible rewrites a well-formed escape only when
  the byte it decodes to is forbidden in the detected family, the whole names "%2e" and
  "%2e%2e" apart: a name that holds no well-formed escape of a forbidden byte and is
  neither of these two is returned unchanged. For every such name, unescaping the result
  of escaping returns the name.
\<close>

theorem unescape_escape_roundtrip:
  assumes "seqsize_ok sz"
    and "\<not> has_escape (getlocalfstype pf (Some (getValidPath pf localPath))) name"
    and "name \<noteq> ''%2e''" and "name \<noteq> ''%2e%2e''"
  shows "unescapefsincompatible pf name localPath = name \<and>
    (\<exists>e. escapefsincompatible sz pf name localPath = Some e \<and>
         unescapefsincompatible pf e localPath = name)"
proof
  let ?fs = "getlocalfstype pf (Some (getValidPath pf localPath))"
  show "unescapefsincompatible pf name localPath = name"
    using assms(2-4) by (simp add: unescapefsincompatible_def Let_def unescape_loop_all unescape_unchanged)
  show "\<exists>e. escapefsincompatible sz pf name localPath = Some e \<and> unescapefsincompatible pf e localPath = name"
  proof (cases "name = ''..'' \<or> name = ''.''")
    case True
    then show ?thesis
      by (auto simp: escapefsincompatible_def unescapefsincompatible_def Let_def)
  next
    case False
    let ?e = "escape_pass sz ?fs 0 name"
    have "escape_loop sz ?fs ([] @ name) (length ([] :: string) + 0) = Some ([] @ ?e)"
      by (rule escape_loop_refines [OF assms(1)])
    then have e: "escapefsincompatible sz pf name localPath = Some ?e"
      using False by (simp add: escapefsincompatible_def Let_def)
    have rt: "foldr (unescape_cons ?fs) ?e [] = name"
      by (rule unescape_escape_pass [OF assms(2)])
    have ne1: "?e \<noteq> ''%2e''"
    proof
      assume "?e = ''%2e''"
      with rt have "foldr (unescape_cons ?fs) ''%2e'' [] = name" by simp
      moreover have "foldr (unescape_cons ?fs) ''%2e'' [] \<in> {''.'', ''%2e''}"
        by (rule unescape_2e)
      ultimately show False using False assms(3) by auto
    qed
    have ne2: "?e \<noteq> ''%2e%2e''"
    proof
      assume "?e = ''%2e%2e''"
      with rt have "foldr (unescape_cons ?fs) ''%2e%2e'' [] = name" by simp
      moreover have "foldr (unescape_cons ?fs) ''%2e%2e'' [] \<in> {''..'', ''%2e%2e''}"
        by (rule unescape_2e2e)
      ultimately show False using False assms(4) by auto
    qed
    have "unescapefsincompatible pf ?e localPath = name"
      using ne1 ne2 rt by (simp add: unescapefsincompatible_def Let_def unescape_loop_all)
    with e show ?thesis by blast
  qed
qed

theorem unescape_escape_roundtrip_witness:
  "seqsize_ok utf8SequenceSize \<and>
   \<not> has_escape (getlocalfstype (posix_volume FS_NTFS)
        (Some (getValidPath (posix_volume FS_NTFS) (Some ''/mnt/w/docs'')))) ''50%25:a?'' \<and>
   ''50%25:a?'' \<noteq> ''%2e'' \<and> ''50%25:a?'' \<noteq> ''%2e%2e'' \<and>
   unescapefsincompatible (posix_volume FS_NTFS) ''50%25:a?'' (Some ''/mnt/w/docs'') = ''50%25:a?'' \<and>
   (\<exists>e. escapefsincompatible utf8SequenceSize (posix_volume FS_NTFS) ''50%25:a?''
          (Some ''/mnt/w/docs'') = Some e \<and>
        unescapefsincompatible (posix_volume FS_NTFS) e (Some ''/mnt/w/docs'') = ''50%25:a?'')"
proof -
  have ok: "seqsize_ok utf8SequenceSize" by (rule utf8SequenceSize_ok)
  have fs: "getlocalfstype (posix_volume FS_NTFS) (Some (getValidPath (posix_volume FS_NTFS) (Some ''/mnt/w/docs''))) = FS_NTFS"
    by (simp add: getlocalfstype_def getValidPath_def posix_volume_def Let_def)
  have ne: "\<not> has_escape (getlocalfstype (posix_volume FS_NTFS)
        (Some (getValidPath (posix_volume FS_NTFS) (Some ''/mnt/w/docs'')))) ''50%25:a?''"
    unfolding fs by code_simp
  have n1: "''50%25:a?'' \<noteq> ''%2e''" by simp
  have n2: "''50%25:a?'' \<noteq> ''%2e%2e''" by simp
  show ?thesis
    using ok ne unescape_escape_roundtrip [OF ok ne n1 n2] by simp
qed

text \<open>
  The claim as it is written fails for a cloud-side name that already holds the escape of a
  forbidden byte: escaping leaves "report%3a" as it is on an NTFS volume, and unescaping
  turns it into "report:".
\<close>

theorem unescape_escape_counterexample:
  "escapefsincompatible utf8SequenceSize (posix_volume FS_NTFS) ''report%3a'' (Some ''/mnt/w/docs'')
     = Some ''report%3a'' \<and>
   unescapefsincompatible (posix_volume FS_NTFS) ''report%3a'' (Some ''/mnt/w/docs'') = ''report:'' \<and>
   ''report:'' \<noteq> ''report%3a''"
proof -
  have fs: "getlocalfstype (posix_volume FS_NTFS) (Some (getValidPath (posix_volume FS_NTFS) (Some ''/mnt/w/docs''))) = FS_NTFS"
    by (simp add: getlocalfstype_def getValidPath_def posix_volume_def Let_def)
  have e: "escape_loop utf8SequenceSize FS_NTFS ''report%3a'' 0 = Some ''report%3a''"
    by code_simp
  have u: "unescape_loop FS_NTFS ''report%3a'' 7 = ''report:''"
    by code_simp
  show ?thesis
    by (simp add: escapefsincompatible_def unescapefsincompatible_def Let_def fs e u)
qed

text \<open>
  C3, as the code has it. For every writer and reader that invert each other, and every
  sync node in a valid state, unserialize of the serialized node succeeds and gives a node
  with the same type, filesystem ID, parent database ID, paired cloud node, local name,
  short name and syncable flag, and for a file node the same size, fingerprint CRC and
  mtime; the size of a folder node is not stored and reads back as 0. Data shorter than
  the fixed header gives the null result.
\<close>

theorem unserialize_serialize_roundtrip:
  assumes "cacheable_ok C" and "valid_localnode C cl l"
  shows "(\<exists>l'. unserialize C cl (serialize C l) = Some l' \<and>
            l_type l' = l_type l \<and> l_fsid l' = l_fsid l \<and>
            l_parent_dbid l' = (case l_parent l of Some dbid \<Rightarrow> dbid | None \<Rightarrow> 0) \<and>
            l_node l' = l_node l \<and> l_localname l' = l_localname l \<and>
            l_slocalname l' = l_slocalname l \<and> l_mSyncable l' = l_mSyncable l \<and>
            (l_type l = FILENODE \<longrightarrow>
               l_size l' = l_size l \<and> l_crc l' = l_crc l \<and> l_mtime l' = l_mtime l) \<and>
            (l_type l = FOLDERNODE \<longrightarrow> l_size l' = 0)) \<and>
         (\<forall>d. length d < 8 + 8 + 4 + NODEHANDLE C + 2 \<longrightarrow> unserialize C cl d = None)"
proof
  have "unserialize C cl (serialize C l) = Some (restored C cl l)"
    by (rule unserialize_serialize_restored [OF assms])
  then show "\<exists>l'. unserialize C cl (serialize C l) = Some l' \<and>
            l_type l' = l_type l \<and> l_fsid l' = l_fsid l \<and>
            l_parent_dbid l' = (case l_parent l of Some dbid \<Rightarrow> dbid | None \<Rightarrow> 0) \<and>
            l_node l' = l_node l \<and> l_localname l' = l_localname l \<and>
            l_slocalname l' = l_slocalname l \<and> l_mSyncable l' = l_mSyncable l \<and>
            (l_type l = FILENODE \<longrightarrow>
               l_size l' = l_size l \<and> l_crc l' = l_crc l \<and> l_mtime l' = l_mtime l) \<and>
            (l_type l = FOLDERNODE \<longrightarrow> l_size l' = 0)"
    by (simp add: restored_def)
  show "\<forall>d. length d < 8 + 8 + 4 + NODEHANDLE C + 2 \<longrightarrow> unserialize C cl d = None"
    using unserialize_short by blast
qed

theorem unserialize_serialize_roundtrip_witness:
  "cacheable_ok raw_cacheable \<and>
   valid_localnode raw_cacheable sample_client sample_filenode \<and>
   (\<exists>l'. unserialize raw_cacheable sample_client (serialize raw_cacheable sample_filenode) = Some l' \<and>
      l_type l' = FILENODE \<and> l_size l' = 10 \<and> l_fsid l' = 42 \<and> l_parent_dbid l' = 3 \<and>
      l_node l' = Some 77 \<and> l_localname l' = ''a.txt'' \<and> l_slocalname l' = Some ''A~1.TXT'' \<and>
      l_mSyncable l' = True \<and> l_crc l' = replicate 16 (CHR ''c'') \<and> l_mtime l' = 1000) \<and>
   length ''012345678901234567890123456'' < 8 + 8 + 4 + NODEHANDLE raw_cacheable + 2 \<and>
   unserialize raw_cacheable sample_client ''012345678901234567890123456'' = None"
proof -
  have ok: "cacheable_ok raw_cacheable" by (rule raw_cacheable_ok)
  have valid: "valid_localnode raw_cacheable sample_client sample_filenode"
    by (simp add: valid_localnode_def sample_filenode_def sample_client_def raw_cacheable_def
        take_bit_eq_mod)
  have short: "length ''012345678901234567890123456'' < 8 + 8 + 4 + NODEHANDLE raw_cacheable + 2"
    by (simp add: raw_cacheable_def)
  note rt = unserialize_serialize_roundtrip [OF ok valid]
  from rt obtain l' where l':
    "unserialize raw_cacheable sample_client (serialize raw_cacheable sample_filenode) = Some l'"
    "l_type l' = FILENODE" "l_size l' = 10" "l_fsid l' = 42" "l_parent_dbid l' = 3"
    "l_node l' = Some 77" "l_localname l' = ''a.txt''" "l_slocalname l' = Some ''A~1.TXT''"
    "l_mSyncable l' = True" "l_crc l' = replicate 16 (CHR ''c'')" "l_mtime l' = 1000"
    by (auto simp: sample_filenode_def)
  from rt short have none:
    "unserialize raw_cacheable sample_client ''012345678901234567890123456'' = None"
    by blast
  from l' have "\<exists>l'. unserialize raw_cacheable sample_client (serialize raw_cacheable sample_filenode) = Some l' \<and>
      l_type l' = FILENODE \<and> l_size l' = 10 \<and> l_fsid l' = 42 \<and> l_parent_dbid l' = 3 \<and>
      l_node l' = Some 77 \<and> l_localname l' = ''a.txt'' \<and> l_slocalname l' = Some ''A~1.TXT'' \<and>
      l_mSyncable l' = True \<and> l_crc l' = replicate 16 (CHR ''c'') \<and> l_mtime l' = 1000"
    by blast
  with ok valid short none show ?thesis by blast
qed

text \<open>
  The claim as it is written fails for the size of a folder node: the size field of the
  sample folder holds \<open>-1\<close>, and the node read back from its record has size 0.
\<close>

theorem unserialize_folder_size_counterexample:
  "valid_localnode raw_cacheable sample_client sample_foldernode \<and>
   l_size sample_foldernode = - 1 \<and>
   map_option l_size
     (unserialize raw_cacheable sample_client (serialize raw_cacheable sample_foldernode)) = Some 0 \<and>
   (0 :: m_off_t) \<noteq> - 1"
proof -
  have tb: "take_bit 48 (- 1 :: 64 word) \<noteq> 77"
    by (simp add: take_bit_minus_one_eq_mask mask_eq_exp_minus_1)
  have valid: "valid_localnode raw_cacheable sample_client sample_foldernode"
    using tb by (simp add: valid_localnode_def sample_foldernode_def sample_client_def
        raw_cacheable_def UNDEF_def)
  have "unserialize raw_cacheable sample_client (serialize raw_cacheable sample_foldernode)
      = Some (restored raw_cacheable sample_client sample_foldernode)"
    by (rule unserialize_serialize_restored [OF raw_cacheable_ok valid])
  then have "map_option l_size
      (unserialize raw_cacheable sample_client (serialize raw_cacheable sample_foldernode)) = Some 0"
    by (simp add: restored_def sample_foldernode_def)
  with valid show ?thesis by (simp add: sample_foldernode_def)
qed

text \<open>
  C4. After any sequence of node creations, setfsid calls and node destructions, the index
  from filesystem IDs to sync nodes and the nodes agree: every entry points at a live node
  whose iterator points back at it, and every node whose filesystem ID is set (its
  iterator is not the end of the index) owns the entry of that ID, so two nodes never hold
  the same set ID. Assigning an ID that is bound to another node revokes that node's
  iterator and binds the entry to the new node.
\<close>

theorem fsid_index_unique:
  "fsid_index_ok (fsid_run ops) \<and>
   (\<forall>a b na nb k.
      localnodes (fsid_run ops) a = Some na \<and> localnodes (fsid_run ops) b = Some nb \<and>
      fsid_it na = Some k \<and> fsid_it nb = Some k \<longrightarrow> a = b) \<and>
   (\<forall>this n prev f.
      localnodes (fsid_run ops) this = Some n \<and> sync_set n \<and>
      fsidnode (fsid_run ops) f = Some prev \<and> prev \<noteq> this \<longrightarrow>
      fsidnode (setfsid (fsid_run ops) this f) f = Some this \<and>
      (\<exists>pn. localnodes (setfsid (fsid_run ops) this f) prev = Some pn \<and> fsid_it pn = None) \<and>
      (\<exists>n'. localnodes (setfsid (fsid_run ops) this f) this = Some n' \<and>
            fsid n' = f \<and> fsid_it n' = Some f))"
proof (intro conjI allI impI)
  show ok: "fsid_index_ok (fsid_run ops)" by (rule fsid_index_ok_run)
  {
    fix a b na nb k
    assume "localnodes (fsid_run ops) a = Some na \<and> localnodes (fsid_run ops) b = Some nb \<and>
      fsid_it na = Some k \<and> fsid_it nb = Some k"
    then have "fsidnode (fsid_run ops) k = Some a" and "fsidnode (fsid_run ops) k = Some b"
      using fsid_node_entry [OF ok] by blast+
    then show "a = b" by simp
  }
  fix this n prev f
  assume h: "localnodes (fsid_run ops) this = Some n \<and> sync_set n \<and>
      fsidnode (fsid_run ops) f = Some prev \<and> prev \<noteq> this"
  let ?h = "fsid_run ops"
  from h have n: "localnodes ?h this = Some n" and sync: "sync_set n"
    and e: "fsidnode ?h f = Some prev" and ne: "prev \<noteq> this" by simp_all
  from fsid_entry_node [OF ok e] obtain pn where pn: "localnodes ?h prev = Some pn" "fsid_it pn = Some f"
    by blast
  have own: "fsidnode ?h k = Some this \<and> fsid n = k" if "fsid_it n = Some k" for k
    using fsid_node_entry [OF ok n that] by simp
  have go: "\<not> (fsid_it n \<noteq> None \<and> f = fsid n)"
    using own e ne by auto
  have idx: "(case fsid_it n of Some k \<Rightarrow> (fsidnode ?h)(k := None) | None \<Rightarrow> fsidnode ?h) f = Some prev"
    using kept_entry [OF ok n pn ne] .
  have eq: "setfsid ?h this f =
      \<lparr>fsidnode = (case fsid_it n of Some k \<Rightarrow> (fsidnode ?h)(k := None) | None \<Rightarrow> fsidnode ?h)
                    (f := Some this),
       localnodes = (localnodes ?h)(this := Some (n\<lparr>fsid := f, fsid_it := Some f\<rparr>),
                                   prev := Some (pn\<lparr>fsid_it := None\<rparr>))\<rparr>"
    using setfsid_unfold [OF n sync go] idx pn ne by (simp add: Let_def)
  show "fsidnode (setfsid ?h this f) f = Some this"
    unfolding eq by simp
  show "\<exists>pn. localnodes (setfsid ?h this f) prev = Some pn \<and> fsid_it pn = None"
    unfolding eq by simp
  show "\<exists>n'. localnodes (setfsid ?h this f) this = Some n' \<and> fsid n' = f \<and> fsid_it n' = Some f"
    unfolding eq using ne by simp
qed

theorem fsid_index_unique_witness:
  "localnodes (fsid_run [NewNode 1 0, NewNode 2 0, SetFsid 1 10]) 1
     = Some \<lparr>sync_set = True, fsid = 10, fsid_it = Some 10\<rparr> \<and>
   localnodes (fsid_run [NewNode 1 0, NewNode 2 0, SetFsid 1 10]) 2
     = Some \<lparr>sync_set = True, fsid = 0, fsid_it = None\<rparr> \<and>
   fsidnode (fsid_run [NewNode 1 0, NewNode 2 0, SetFsid 1 10]) 10 = Some 1 \<and>
   fsidnode (setfsid (fsid_run [NewNode 1 0, NewNode 2 0, SetFsid 1 10]) 2 10) 10 = Some 2 \<and>
   localnodes (setfsid (fsid_run [NewNode 1 0, NewNode 2 0, SetFsid 1 10]) 2 10) 1
     = Some \<lparr>sync_set = True, fsid = 10, fsid_it = None\<rparr> \<and>
   localnodes (setfsid (fsid_run [NewNode 1 0, NewNode 2 0, SetFsid 1 10]) 2 10) 2
     = Some \<lparr>sync_set = True, fsid = 10, fsid_it = Some 10\<rparr>"
proof -
  let ?h = "fsid_run [NewNode 1 0, NewNode 2 0, SetFsid 1 10]"
  have h: "?h = \<lparr>fsidnode = (\<lambda>k. None)(10 := Some 1),
      localnodes = (\<lambda>a. None)(1 := Some \<lparr>sync_set = True, fsid = 10, fsid_it = Some 10\<rparr>,
                              2 := Some \<lparr>sync_set = True, fsid = 0, fsid_it = None\<rparr>)\<rparr>"
    by (simp add: fsid_run_def empty_fsid_heap_def new_localnode_def setfsid_def Let_def fun_eq_iff)
  have a: "localnodes ?h 2 = Some \<lparr>sync_set = True, fsid = 0, fsid_it = None\<rparr>"
    unfolding h by simp
  have b: "fsidnode ?h 10 = Some 1" unfolding h by simp
  have a1: "localnodes ?h 1 = Some \<lparr>sync_set = True, fsid = 10, fsid_it = Some 10\<rparr>"
    unfolding h by simp
  note revoke = fsid_index_unique [of "[NewNode 1 0, NewNode 2 0, SetFsid 1 10]",
      THEN conjunct2, THEN conjunct2, THEN spec, THEN spec, THEN spec, THEN spec, THEN mp]
  have "fsidnode (setfsid ?h 2 10) 10 = Some 2 \<and>
      (\<exists>pn. localnodes (setfsid ?h 2 10) 1 = Some pn \<and> fsid_it pn = None) \<and>
      (\<exists>n'. localnodes (setfsid ?h 2 10) 2 = Some n' \<and> fsid n' = 10 \<and> fsid_it n' = Some 10)"
    by (rule revoke) (intro conjI, rule a, simp, rule b, simp)
  then have c: "fsidnode (setfsid ?h 2 10) 10 = Some 2" by simp
  have d: "localnodes (setfsid ?h 2 10) 1 = Some \<lparr>sync_set = True, fsid = 10, fsid_it = None\<rparr>"
    and e: "localnodes (setfsid ?h 2 10) 2 = Some \<lparr>sync_set = True, fsid = 10, fsid_it = Some 10\<rparr>"
    unfolding h by (simp_all add: setfsid_def Let_def)
  from a1 a b c d e show ?thesis by simp
qed

text \<open>
  C5. setnode and the destructor of a cloud node keep the cross-reference invariant: a sync
  node pairs a cloud node exactly when the cloud node's back-link is that sync node. After
  setnode pairs a live sync node with a live cloud node, each points at the other and the
  sync node is not marked deleted; the cloud node that the sync node paired before, and
  the sync node that the cloud node was linked to before, have lost their links.
  Destroying a cloud node clears the link of its sync node and marks it deleted.
\<close>

theorem setnode_keeps_crossref:
  assumes "xref_ok h"
  shows "xref_ok (setnode h this cnode) \<and> xref_ok (destroy_node h c) \<and>
    (\<forall>ln cn. syncnodes h this = Some ln \<and> cloudnodes h c = Some cn \<longrightarrow>
       (\<exists>ln' cn'. syncnodes (setnode h this (Some c)) this = Some ln' \<and> node ln' = Some c \<and>
          \<not> deleted ln' \<and>
          cloudnodes (setnode h this (Some c)) c = Some cn' \<and> localnode' cn' = Some this) \<and>
       (\<forall>c0. node ln = Some c0 \<and> c0 \<noteq> c \<longrightarrow>
          (\<exists>cn0. cloudnodes (setnode h this (Some c)) c0 = Some cn0 \<and> localnode' cn0 = None)) \<and>
       (\<forall>l0. localnode' cn = Some l0 \<and> l0 \<noteq> this \<longrightarrow>
          (\<exists>ln0. syncnodes (setnode h this (Some c)) l0 = Some ln0 \<and> node ln0 = None))) \<and>
    (\<forall>cn l. cloudnodes h c = Some cn \<and> localnode' cn = Some l \<longrightarrow>
       cloudnodes (destroy_node h c) c = None \<and>
       (\<exists>ln'. syncnodes (destroy_node h c) l = Some ln' \<and> node ln' = None \<and> deleted ln'))"
proof (intro conjI allI impI)
  show "xref_ok (setnode h this cnode)" by (rule xref_ok_setnode [OF assms])
  show "xref_ok (destroy_node h c)" by (rule xref_ok_destroy_node [OF assms])
next
  fix ln cn
  assume "syncnodes h this = Some ln \<and> cloudnodes h c = Some cn"
  then show "\<exists>ln' cn'. syncnodes (setnode h this (Some c)) this = Some ln' \<and> node ln' = Some c \<and>
          \<not> deleted ln' \<and>
          cloudnodes (setnode h this (Some c)) c = Some cn' \<and> localnode' cn' = Some this"
    using setnode_pairs by blast
next
  fix ln cn c0
  assume "syncnodes h this = Some ln \<and> cloudnodes h c = Some cn" and "node ln = Some c0 \<and> c0 \<noteq> c"
  then show "\<exists>cn0. cloudnodes (setnode h this (Some c)) c0 = Some cn0 \<and> localnode' cn0 = None"
    using setnode_clears_cloud [OF assms] by blast
next
  fix ln cn l0
  assume "syncnodes h this = Some ln \<and> cloudnodes h c = Some cn"
    and "localnode' cn = Some l0 \<and> l0 \<noteq> this"
  then show "\<exists>ln0. syncnodes (setnode h this (Some c)) l0 = Some ln0 \<and> node ln0 = None"
    using setnode_clears_sync [OF assms] by blast
next
  fix cn l
  assume a: "cloudnodes h c = Some cn \<and> localnode' cn = Some l"
  then have "cloudnodes (destroy_node h c) c = None \<and>
      (\<exists>ln'. syncnodes (destroy_node h c) l = Some ln' \<and> node ln' = None \<and> deleted ln')"
    using destroy_node_clears [OF assms] by blast
  then show "cloudnodes (destroy_node h c) c = None"
    and "\<exists>ln'. syncnodes (destroy_node h c) l = Some ln' \<and> node ln' = None \<and> deleted ln'"
    by simp_all
qed

theorem setnode_keeps_crossref_witness:
  "xref_ok two_pairs \<and>
   syncnodes (setnode two_pairs 1 (Some 6)) 1 = Some \<lparr>node = Some 6, deleted = False\<rparr> \<and>
   cloudnodes (setnode two_pairs 1 (Some 6)) 6 = Some \<lparr>localnode' = Some 1\<rparr> \<and>
   cloudnodes (setnode two_pairs 1 (Some 6)) 5 = Some \<lparr>localnode' = None\<rparr> \<and>
   syncnodes (setnode two_pairs 1 (Some 6)) 2 = Some \<lparr>node = None, deleted = False\<rparr> \<and>
   xref_ok (setnode two_pairs 1 (Some 6)) \<and>
   cloudnodes (destroy_node two_pairs 5) 5 = None \<and>
   syncnodes (destroy_node two_pairs 5) 1 = Some \<lparr>node = None, deleted = True\<rparr> \<and>
   xref_ok (destroy_node two_pairs 5)"
proof -
  have ok: "xref_ok two_pairs"
    by (simp add: xref_ok_def two_pairs_def)
  have a: "syncnodes (setnode two_pairs 1 (Some 6)) 1 = Some \<lparr>node = Some 6, deleted = False\<rparr>"
    and b: "cloudnodes (setnode two_pairs 1 (Some 6)) 6 = Some \<lparr>localnode' = Some 1\<rparr>"
    and c: "cloudnodes (setnode two_pairs 1 (Some 6)) 5 = Some \<lparr>localnode' = None\<rparr>"
    and d: "syncnodes (setnode two_pairs 1 (Some 6)) 2 = Some \<lparr>node = None, deleted = False\<rparr>"
    by (simp_all add: two_pairs_def setnode_def Let_def reset_node_def reset_localnode_def
        crossref_def)
  have e: "cloudnodes (destroy_node two_pairs 5) 5 = None"
    and f: "syncnodes (destroy_node two_pairs 5) 1 = Some \<lparr>node = None, deleted = True\<rparr>"
    by (simp_all add: two_pairs_def destroy_node_def Let_def reset_localnode_def)
  from ok a b c d e f setnode_keeps_crossref [OF ok, of 1 "Some 6" 5]
  show ?thesis by simp
qed

text \<open>
  C6, as the code has it. For a file opened in non-blocking mode, openf returns false
  without a system open whenever the fresh stat fails or yields a size or mtime that
  differs from the captured one, and makes the system open exactly when both are
  unchanged. asyncopenf does the same unless the file is already opened for asynchronous
  reads: then it returns true with neither a stat nor a system open.
\<close>

theorem openf_checks_unchanged:
  assumes "nonblocking_localname fa \<noteq> []"
  shows "(sysstat st \<noteq> Some (fa_mtime fa, fa_size fa) \<longrightarrow>
            fst (openf st fa) = False \<and> SysOpen \<notin> set (snd (snd (openf st fa)))) \<and>
         (sysstat st = Some (fa_mtime fa, fa_size fa) \<longrightarrow>
            openf st fa = (sysopen st, fa, [SysStat, SysOpen])) \<and>
         (\<not> isAsyncOpened fa \<and> sysstat st \<noteq> Some (fa_mtime fa, fa_size fa) \<longrightarrow>
            fst (asyncopenf st fa) = False \<and> SysOpen \<notin> set (snd (snd (asyncopenf st fa)))) \<and>
         (\<not> isAsyncOpened fa \<and> sysstat st = Some (fa_mtime fa, fa_size fa) \<longrightarrow>
            fst (asyncopenf st fa) = sysopen st \<and>
            snd (snd (asyncopenf st fa)) = [SysStat, SysOpen]) \<and>
         (isAsyncOpened fa \<longrightarrow>
            asyncopenf st fa = (True, fa\<lparr>numAsyncReads := numAsyncReads fa + 1\<rparr>, []))"
  using assms
  by (auto simp: openf_def asyncopenf_def Let_def split: option.splits)

theorem openf_checks_unchanged_witness:
  "nonblocking_localname sample_file \<noteq> [] \<and>
   fst (openf \<lparr>sysstat = Some (1001, 10), sysopen = True\<rparr> sample_file) = False \<and>
   openf \<lparr>sysstat = Some (1000, 10), sysopen = True\<rparr> sample_file
     = (True, sample_file, [SysStat, SysOpen]) \<and>
   fst (asyncopenf \<lparr>sysstat = Some (1000, 11), sysopen = True\<rparr> sample_file) = False \<and>
   fst (asyncopenf \<lparr>sysstat = Some (1000, 10), sysopen = True\<rparr> sample_file) = True \<and>
   asyncopenf \<lparr>sysstat = Some (1000, 11), sysopen = True\<rparr> (sample_file\<lparr>isAsyncOpened := True\<rparr>)
     = (True, sample_file\<lparr>isAsyncOpened := True, numAsyncReads := 1\<rparr>, [])"
proof -
  have nb: "nonblocking_localname sample_file \<noteq> []" by (simp add: sample_file_def)
  have nb': "nonblocking_localname (sample_file\<lparr>isAsyncOpened := True\<rparr>) \<noteq> []"
    by (simp add: sample_file_def)
  show ?thesis
    using nb
      openf_checks_unchanged [OF nb, of "\<lparr>sysstat = Some (1001, 10), sysopen = True\<rparr>"]
      openf_checks_unchanged [OF nb, of "\<lparr>sysstat = Some (1000, 10), sysopen = True\<rparr>"]
      openf_checks_unchanged [OF nb, of "\<lparr>sysstat = Some (1000, 11), sysopen = True\<rparr>"]
      openf_checks_unchanged [OF nb', of "\<lparr>sysstat = Some (1000, 11), sysopen = True\<rparr>"]
    by (simp add: sample_file_def)
qed

text \<open>
  The claim as it is written fails for asyncopenf on a file that is already opened for
  asynchronous reads: the size changed from 10 to 11, and the call returns true.
\<close>

theorem asyncopenf_counterexample:
  "nonblocking_localname (sample_file\<lparr>isAsyncOpened := True\<rparr>) \<noteq> [] \<and>
   sysstat \<lparr>sysstat = Some (1000, 11), sysopen = True\<rparr>
     \<noteq> Some (fa_mtime (sample_file\<lparr>isAsyncOpened := True\<rparr>),
              fa_size (sample_file\<lparr>isAsyncOpened := True\<rparr>)) \<and>
   fst (asyncopenf \<lparr>sysstat = Some (1000, 11), sysopen = True\<rparr>
          (sample_file\<lparr>isAsyncOpened := True\<rparr>)) = True"
  by (simp add: asyncopenf_def sample_file_def Let_def)

text \<open>
  C7, as the code has it. On the DIREVENTS and EXTRA queues, a notification whose local
  node and path equal those of the notification at the back of the queue does not grow
  the queue: the entries stay as they are, except that the timestamp of the last one,
  when it is not zero, becomes zero for an immediate notification and the current time
  otherwise. The other queues are untouched.
\<close>

theorem notify_coalesces_repeat:
  assumes "q = DIREVENTS \<or> q = EXTRA"
    and "notifyq d q \<noteq> []"
    and "localnode (last (notifyq d q)) = l"
    and "Notification.path (last (notifyq d q)) = p"
  shows "\<exists>d'. notify env d q l (Some p) immediate = Some d' \<and>
      length (notifyq d' q) = length (notifyq d q) \<and>
      butlast (notifyq d' q) = butlast (notifyq d q) \<and>
      last (notifyq d' q) = (last (notifyq d q))
        \<lparr>timestamp := (if timestamp (last (notifyq d q)) = 0 then 0
                        else if immediate then 0 else ds env)\<rparr> \<and>
      (\<forall>q'. q' \<noteq> q \<longrightarrow> notifyq d' q' = notifyq d q')"
  using assms by (auto simp: notify_def)

theorem notify_coalesces_repeat_witness:
  "notifyq (sample_dirnotify [\<lparr>timestamp = 5, localnode = Some 7, path = ''b.txt''\<rparr>]) DIREVENTS \<noteq> [] \<and>
   notify sample_env (sample_dirnotify [\<lparr>timestamp = 5, localnode = Some 7, path = ''b.txt''\<rparr>])
       DIREVENTS (Some 7) (Some ''b.txt'') False
     = Some (sample_dirnotify [\<lparr>timestamp = 77, localnode = Some 7, path = ''b.txt''\<rparr>])"
proof -
  let ?d = "sample_dirnotify [\<lparr>timestamp = 5, localnode = Some 7, path = ''b.txt''\<rparr>]"
  have a: "DIREVENTS = DIREVENTS \<or> DIREVENTS = EXTRA" by simp
  have b: "notifyq ?d DIREVENTS \<noteq> []" by (simp add: sample_dirnotify_def)
  have c: "localnode (last (notifyq ?d DIREVENTS)) = Some 7" by (simp add: sample_dirnotify_def)
  have e: "Notification.path (last (notifyq ?d DIREVENTS)) = ''b.txt''"
    by (simp add: sample_dirnotify_def)
  from notify_coalesces_repeat [OF a b c e, of sample_env False]
  obtain d' where d': "notify sample_env ?d DIREVENTS (Some 7) (Some ''b.txt'') False = Some d'"
    by blast
  have "notify sample_env ?d DIREVENTS (Some 7) (Some ''b.txt'') False
      = Some (sample_dirnotify [\<lparr>timestamp = 77, localnode = Some 7, path = ''b.txt''\<rparr>])"
    by (simp add: notify_def Let_def sample_dirnotify_def sample_env_def fun_eq_iff)
  with b show ?thesis by simp
qed

text \<open>
  The claim as it is written fails when another notification came in between: with
  \<^verbatim>\<open>b.txt\<close> and then \<^verbatim>\<open>c.txt\<close> queued, a second notification for \<^verbatim>\<open>b.txt\<close> grows
  the queue from two entries to three.
\<close>

theorem notify_interleaved_counterexample:
  "map_option (\<lambda>d'. length (notifyq d' DIREVENTS))
     (notify sample_env
        (sample_dirnotify [\<lparr>timestamp = 5, localnode = Some 7, path = ''b.txt''\<rparr>,
                           \<lparr>timestamp = 5, localnode = Some 7, path = ''c.txt''\<rparr>])
        DIREVENTS (Some 7) (Some ''b.txt'') True)
     = Some 3"
  by (simp add: notify_def Let_def sample_dirnotify_def sample_env_def)

text \<open>
  C8, as the code has it. A notification on the DIREVENTS queue that is not immediate, for
  a sync that is attached and not initializing, is never enqueued when the notified path
  names a sync node whose paired cloud node links back to it and carries its name, and a
  fresh stat of the path succeeds with a valid filesystem ID, the ID and type of the sync
  node and, for a file, its mtime and size, the fingerprints of the pair being equal: no
  queue gains an entry and the activity flag is not raised.
\<close>

theorem notify_drops_self_notification:
  assumes "\<not> immediate" and "sync_attached d" and "\<not> initializing d"
    and "localnodebypath env l p = Some ll"
    and "ln_node ll = Some cnode"
    and "n_localnode cnode = Some (ln_addr ll)"
    and "n_attrs cnode (CHR ''n'') = Some (ln_name ll)"
    and "success (fopen env (notified_path env l (Some p)))"
    and "fsidvalid (fopen env (notified_path env l (Some p)))"
    and "fo_fsid (fopen env (notified_path env l (Some p))) = ln_fsid ll"
    and "fo_type (fopen env (notified_path env l (Some p))) = ln_type ll"
    and "ln_type ll = FILENODE \<longrightarrow>
           fo_mtime (fopen env (notified_path env l (Some p))) = fp_mtime (ln_fingerprint ll) \<and>
           fo_size (fopen env (notified_path env l (Some p))) = fp_size (ln_fingerprint ll) \<and>
           fp_equal env (ln_fingerprint ll) (n_fingerprint cnode)"
  shows "\<exists>d'. notify env d DIREVENTS l (Some p) immediate = Some d' \<and>
      (\<forall>q. map (\<lambda>n. (localnode n, Notification.path n)) (notifyq d' q) =
           map (\<lambda>n. (localnode n, Notification.path n)) (notifyq d q)) \<and>
      syncactivity d' = syncactivity d"
proof -
  have self: "self_notification env l (Some p)"
    using assms(4-12) by (auto simp: self_notification_def Let_def)
  show ?thesis
  proof (cases "notifyq d DIREVENTS \<noteq> [] \<and> localnode (last (notifyq d DIREVENTS)) = l \<and>
      Notification.path (last (notifyq d DIREVENTS)) = p")
    case True
    then have ne: "notifyq d DIREVENTS \<noteq> []" by simp
    have keep: "map (\<lambda>n. (localnode n, Notification.path n))
        (butlast (notifyq d DIREVENTS) @ [(last (notifyq d DIREVENTS))\<lparr>timestamp := t\<rparr>])
      = map (\<lambda>n. (localnode n, Notification.path n)) (notifyq d DIREVENTS)" for t
    proof -
      have "map (\<lambda>n. (localnode n, Notification.path n))
          (butlast (notifyq d DIREVENTS) @ [(last (notifyq d DIREVENTS))\<lparr>timestamp := t\<rparr>])
        = map (\<lambda>n. (localnode n, Notification.path n))
          (butlast (notifyq d DIREVENTS) @ [last (notifyq d DIREVENTS)])"
        by simp
      then show ?thesis using ne by simp
    qed
    show ?thesis
      using True keep by (auto simp: notify_def)
  next
    case False
    then have "notify env d DIREVENTS l (Some p) immediate = Some d"
      using assms(1-3) self by (auto simp: notify_def)
    then show ?thesis by simp
  qed
qed

theorem notify_drops_self_notification_witness:
  "localnodebypath sample_env (Some 7) ''a.txt'' = Some sample_syncnode \<and>
   ln_node sample_syncnode = Some sample_cloudnode \<and>
   ln_type sample_syncnode = FILENODE \<and>
   notify sample_env (sample_dirnotify []) DIREVENTS (Some 7) (Some ''a.txt'') False
     = Some (sample_dirnotify [])"
proof -
  let ?fa = "fopen sample_env (notified_path sample_env (Some 7) (Some ''a.txt''))"
  have h1: "\<not> False" by simp
  have h2: "sync_attached (sample_dirnotify [])" by (simp add: sample_dirnotify_def)
  have h3: "\<not> initializing (sample_dirnotify [])" by (simp add: sample_dirnotify_def)
  have h4: "localnodebypath sample_env (Some 7) ''a.txt'' = Some sample_syncnode"
    by (simp add: sample_env_def)
  have h5: "ln_node sample_syncnode = Some sample_cloudnode" by (simp add: sample_syncnode_def)
  have h6: "n_localnode sample_cloudnode = Some (ln_addr sample_syncnode)"
    by (simp add: sample_syncnode_def sample_cloudnode_def)
  have h7: "n_attrs sample_cloudnode (CHR ''n'') = Some (ln_name sample_syncnode)"
    by (simp add: sample_syncnode_def sample_cloudnode_def)
  have h8: "success ?fa" by (simp add: sample_env_def)
  have h9: "fsidvalid ?fa" by (simp add: sample_env_def)
  have h10: "fo_fsid ?fa = ln_fsid sample_syncnode" by (simp add: sample_env_def sample_syncnode_def)
  have h11: "fo_type ?fa = ln_type sample_syncnode" by (simp add: sample_env_def sample_syncnode_def)
  have h12: "ln_type sample_syncnode = FILENODE \<longrightarrow>
      fo_mtime ?fa = fp_mtime (ln_fingerprint sample_syncnode) \<and>
      fo_size ?fa = fp_size (ln_fingerprint sample_syncnode) \<and>
      fp_equal sample_env (ln_fingerprint sample_syncnode) (n_fingerprint sample_cloudnode)"
    by (simp add: sample_env_def sample_syncnode_def sample_cloudnode_def sample_fingerprint_def)
  from notify_drops_self_notification [OF h1 h2 h3 h4 h5 h6 h7 h8 h9 h10 h11 h12]
  obtain d' where d': "notify sample_env (sample_dirnotify []) DIREVENTS (Some 7) (Some ''a.txt'') False = Some d'"
    "\<forall>q. map (\<lambda>n. (localnode n, Notification.path n)) (notifyq d' q) =
         map (\<lambda>n. (localnode n, Notification.path n)) (notifyq (sample_dirnotify []) q)"
    "syncactivity d' = syncactivity (sample_dirnotify [])"
    by blast
  have "notifyq d' = notifyq (sample_dirnotify [])"
    using d'(2) by (auto simp: fun_eq_iff sample_dirnotify_def)
  moreover have "sync_attached d' = sync_attached (sample_dirnotify []) \<and>
      initializing d' = initializing (sample_dirnotify [])"
    using d'(1) by (auto simp: notify_def Let_def split: if_splits)
  ultimately have "d' = sample_dirnotify []"
    using d'(3) by simp
  with d'(1) h4 h5 show ?thesis by (simp add: sample_syncnode_def)
qed

text \<open>
  The claim as it is written fails for an immediate notification: with the same agreeing
  sync node, cloud node and stat, the notification is enqueued.
\<close>

theorem notify_immediate_counterexample:
  "self_notification sample_env (Some 7) (Some ''a.txt'') \<and>
   notify sample_env (sample_dirnotify []) DIREVENTS (Some 7) (Some ''a.txt'') True
     = Some ((sample_dirnotify [\<lparr>timestamp = 0, localnode = Some 7, path = ''a.txt''\<rparr>])
               \<lparr>syncactivity := True\<rparr>)"
  by (simp add: notify_def Let_def self_notification_def notified_path_def sample_dirnotify_def
      sample_env_def sample_syncnode_def sample_cloudnode_def sample_fingerprint_def fun_eq_iff)

text \<open>
  C9. normalize rewrites each maximal NUL-free segment of a filename to its composed form
  and keeps every embedded NUL byte in place: the name is its segments joined by NUL
  bytes, and the result is the composed segments joined by NUL bytes. The name is cleared
  only when the normaliser fails on a segment; when it succeeds on every non-empty
  segment, the name is not rejected, whatever NUL bytes it holds.
\<close>

theorem normalize_keeps_nul:
  "join_nul (nul_segments name) = name \<and>
   (\<forall>s \<in> set (nul_segments name). CHR 0x00 \<notin> set s) \<and>
   normalize_loop nfc name 0 [] = map_option join_nul (all_segments nfc (nul_segments name)) \<and>
   ((\<forall>s \<in> set (nul_segments name). s \<noteq> [] \<longrightarrow> nfc s \<noteq> None) \<longrightarrow>
      (\<exists>ns. all_segments nfc (nul_segments name) = Some ns \<and>
            length ns = length (nul_segments name) \<and>
            (\<forall>k < length ns. segment_nfc nfc (nul_segments name ! k) = Some (ns ! k)) \<and>
            normalize nfc (Some name) = Some (join_nul ns)))"
proof (intro conjI)
  show "join_nul (nul_segments name) = name" by (rule join_nul_segments)
  show free: "\<forall>s \<in> set (nul_segments name). CHR 0x00 \<notin> set s"
    using nul_segments_free by blast
  have "normalize_loop nfc ([] @ join_nul (nul_segments name)) (length ([] :: string)) [] =
      map_option (\<lambda>ns. [] @ join_nul ns) (all_segments nfc (nul_segments name))"
    by (rule normalize_loop_segments [OF nul_segments_nonempty free])
  then show loop: "normalize_loop nfc name 0 [] =
      map_option join_nul (all_segments nfc (nul_segments name))"
    by (simp add: join_nul_segments)
  show "(\<forall>s \<in> set (nul_segments name). s \<noteq> [] \<longrightarrow> nfc s \<noteq> None) \<longrightarrow>
      (\<exists>ns. all_segments nfc (nul_segments name) = Some ns \<and>
            length ns = length (nul_segments name) \<and>
            (\<forall>k < length ns. segment_nfc nfc (nul_segments name ! k) = Some (ns ! k)) \<and>
            normalize nfc (Some name) = Some (join_nul ns))"
  proof
    assume "\<forall>s \<in> set (nul_segments name). s \<noteq> [] \<longrightarrow> nfc s \<noteq> None"
    then obtain ns where ns: "all_segments nfc (nul_segments name) = Some ns"
      "length ns = length (nul_segments name)"
      "\<forall>k < length ns. segment_nfc nfc (nul_segments name ! k) = Some (ns ! k)"
      using all_segments_total by blast
    moreover have "normalize nfc (Some name) = Some (join_nul ns)"
      using loop ns(1) by (simp add: normalize_def)
    ultimately show "\<exists>ns. all_segments nfc (nul_segments name) = Some ns \<and>
            length ns = length (nul_segments name) \<and>
            (\<forall>k < length ns. segment_nfc nfc (nul_segments name ! k) = Some (ns ! k)) \<and>
            normalize nfc (Some name) = Some (join_nul ns)"
      by blast
  qed
qed

theorem normalize_keeps_nul_witness:
  "list_all (\<lambda>s. s = [] \<or> toy_nfc s \<noteq> None)
     (nul_segments [CHR ''e'', CHR 0xCC, CHR 0x81, CHR 0x00, CHR 0x00, CHR ''a'', CHR 0x00]) \<and>
   nul_segments [CHR ''e'', CHR 0xCC, CHR 0x81, CHR 0x00, CHR 0x00, CHR ''a'', CHR 0x00]
     = [[CHR ''e'', CHR 0xCC, CHR 0x81], [], ''a'', []] \<and>
   normalize toy_nfc (Some [CHR ''e'', CHR 0xCC, CHR 0x81, CHR 0x00, CHR 0x00, CHR ''a'', CHR 0x00])
     = Some [CHR 0xC3, CHR 0xA9, CHR 0x00, CHR 0x00, CHR ''a'', CHR 0x00]"
proof -
  let ?name = "[CHR ''e'', CHR 0xCC, CHR 0x81, CHR 0x00, CHR 0x00, CHR ''a'', CHR 0x00]"
  have segs: "nul_segments ?name = [[CHR ''e'', CHR 0xCC, CHR 0x81], [], ''a'', []]"
    by simp
  have hyp: "\<forall>s \<in> set (nul_segments ?name). s \<noteq> [] \<longrightarrow> toy_nfc s \<noteq> None"
    unfolding segs by (simp add: toy_nfc_def)
  have all: "all_segments toy_nfc (nul_segments ?name) = Some [[CHR 0xC3, CHR 0xA9], [], ''a'', []]"
    unfolding segs by (simp add: segment_nfc_def toy_nfc_def c_str_def)
  from normalize_keeps_nul [of ?name toy_nfc] hyp
  have "\<exists>ns. all_segments toy_nfc (nul_segments ?name) = Some ns \<and>
      normalize toy_nfc (Some ?name) = Some (join_nul ns)"
    by blast
  then have "normalize toy_nfc (Some ?name) = Some (join_nul [[CHR 0xC3, CHR 0xA9], [], ''a'', []])"
    unfolding all by simp
  then show ?thesis
    unfolding segs by (simp add: toy_nfc_def)
qed

text \<open>
  C10. The clamping operation captimestamp maps every timestamp into the closed interval
  from 0 to 2^32 - 1: a negative input becomes 0, an input above 2^32 - 1 becomes
  2^32 - 1, and every other input is left unchanged.
\<close>

theorem captimestamp_clamps:
  "0 \<le> sint (captimestamp t) \<and> sint (captimestamp t) \<le> 2 ^ 32 - 1 \<and>
   (sint t < 0 \<longrightarrow> captimestamp t = 0) \<and>
   (2 ^ 32 - 1 < sint t \<longrightarrow> captimestamp t = 2 ^ 32 - 1) \<and>
   (0 \<le> sint t \<and> sint t \<le> 2 ^ 32 - 1 \<longrightarrow> captimestamp t = t)"
  by (simp add: captimestamp_def)

theorem captimestamp_clamps_witness:
  "sint (- 5 :: m_time_t) < 0 \<and> captimestamp (- 5) = 0 \<and>
   2 ^ 32 - 1 < sint (8589934592 :: m_time_t) \<and> captimestamp 8589934592 = 2 ^ 32 - 1 \<and>
   0 \<le> sint (1700000000 :: m_time_t) \<and> sint (1700000000 :: m_time_t) \<le> 2 ^ 32 - 1 \<and>
   captimestamp 1700000000 = 1700000000"
  using captimestamp_clamps [of "- 5"] captimestamp_clamps [of 8589934592]
    captimestamp_clamps [of 1700000000]
  by simp

end
